theory Spec2Isabelle
  imports Complex_Main "HOL-Library.Sublist"
begin

section \<open>Data model (page.tsx, lines 6-101)\<close>

datatype Difficulty = Easy | Medium | Hard

text \<open>\<^verbatim>\<open>foundBy: null | "player" | "ai"\<close>: the claimant is an option over the two actors.\<close>

datatype actor = Player | AI

type_synonym pos = "int \<times> int"

record WordData =
  word :: string
  foundBy :: "actor option"
  positions :: "pos list"

record config =
  gridSize :: nat
  words :: "string list"
  aiInterval :: nat
  aiSkill :: real

fun DIFFICULTY_CONFIG :: "Difficulty \<Rightarrow> config" where
  "DIFFICULTY_CONFIG Easy = \<lparr>gridSize = 8,
     words = [''CAT'', ''DOG'', ''TREE'', ''BOOK'', ''FISH'', ''SUN'', ''MOON'', ''CAR'',
              ''BIRD'', ''STAR''],
     aiInterval = 1800, aiSkill = 3 / 10\<rparr>"
| "DIFFICULTY_CONFIG Medium = \<lparr>gridSize = 12,
     words = [''ELEPHANT'', ''COMPUTER'', ''JAVASCRIPT'', ''FLOWER'', ''MOUNTAIN'', ''PYTHON'',
              ''OCEAN'', ''LAPTOP'', ''SPIDER'', ''GUITAR'', ''PLANET'', ''RIVER''],
     aiInterval = 1300, aiSkill = 55 / 100\<rparr>"
| "DIFFICULTY_CONFIG Hard = \<lparr>gridSize = 16,
     words = [''ASTRONOMY'', ''MICROSCOPE'', ''ARCHITECTURE'', ''PHILOSOPHY'', ''INTERNATIONAL'',
              ''NEXTJS'', ''EXPERIMENT'', ''TECHNOLOGY'', ''ALGORITHM'', ''THEORY'', ''ENIGMA'',
              ''SYNTHESIS'', ''DEVELOPMENT'', ''QUANTUM'', ''CALCULATOR'', ''STRATEGY''],
     aiInterval = 900, aiSkill = 8 / 10\<rparr>"

text \<open>Directions for placing words: (rowDelta, colDelta), in the order of the source table.\<close>

definition DIRECTIONS :: "(int \<times> int) list" where
  "DIRECTIONS = [(0, 1), (1, 0), (0, -1), (-1, 0), (1, 1), (-1, -1), (1, -1), (-1, 1)]"

section \<open>Randomness\<close>

text \<open>
  \<^verbatim>\<open>Math.random()\<close> is an input of the model: the \<open>n\<close>-th call returns \<open>rnd n\<close>, a
  number in \<open>[0, 1)\<close>, and every function that draws threads the number of calls made so
  far. \<^verbatim>\<open>randomInt(a, b) = a + Math.floor(Math.random() * (b - a + 1))\<close> takes the draw
  as its first argument; the draw and its product with the count are real numbers here.
\<close>

definition rnd_ok :: "(nat \<Rightarrow> real) \<Rightarrow> bool" where
  "rnd_ok rnd \<longleftrightarrow> (\<forall>n. 0 \<le> rnd n \<and> rnd n < 1)"

definition randomInt :: "real \<Rightarrow> int \<Rightarrow> int \<Rightarrow> int" where
  "randomInt u a b = a + \<lfloor>u * real_of_int (b - a + 1)\<rfloor>"

section \<open>Strings\<close>

text \<open>
  Words are strings over 8-bit characters; \<^verbatim>\<open>toUpperCase\<close> maps the letters a-z to A-Z
  and leaves every other character as it is (the words of the difficulty table are ASCII).
\<close>

definition toUpperChar :: "char \<Rightarrow> char" where
  "toUpperChar c = (if 97 \<le> (of_char c :: nat) \<and> (of_char c :: nat) \<le> 122
                    then char_of ((of_char c :: nat) - 32) else c)"

definition toUpperCase :: "string \<Rightarrow> string" where
  "toUpperCase w = map toUpperChar w"

section \<open>The grid\<close>

text \<open>
  A cell is a string: \<open>''''\<close> while empty, a one-character string once written.
  Reading \<^verbatim>\<open>grid[r][c]\<close> raises a TypeError when row \<open>r\<close> does not exist and yields
  \<^verbatim>\<open>undefined\<close> (here \<open>None\<close>) when only the column is out of range. A write to a row
  that does not exist raises as well; a write outside an existing row would grow that row
  or add a property to it in JavaScript, which the model reports as the error
  \<open>RowGrowth\<close>, so that a result \<open>Inr\<close> also says that no such write happened.
\<close>

datatype error = TypeError | RowGrowth

type_synonym grid = "string list list"

definition emptyGrid :: "nat \<Rightarrow> grid" where
  "emptyGrid sz = replicate sz (replicate sz '''')"

definition cellAt :: "grid \<Rightarrow> int \<Rightarrow> int \<Rightarrow> error + string option" where
  "cellAt g r c =
     (if 0 \<le> r \<and> r < int (length g)
      then (if 0 \<le> c \<and> c < int (length (g ! nat r))
            then Inr (Some (g ! nat r ! nat c)) else Inr None)
      else Inl TypeError)"

definition setCell :: "grid \<Rightarrow> int \<Rightarrow> int \<Rightarrow> string \<Rightarrow> error + grid" where
  "setCell g r c v =
     (if 0 \<le> r \<and> r < int (length g)
      then (if 0 \<le> c \<and> c < int (length (g ! nat r))
            then Inr (g[nat r := (g ! nat r)[nat c := v]]) else Inl RowGrowth)
      else Inl TypeError)"

section \<open>generateGrid (lines 117-179)\<close>

text \<open>The upper bound of the anchor draw, for one coordinate with step \<open>d\<close> (lines 135, 139).\<close>

definition anchorMax :: "nat \<Rightarrow> int \<Rightarrow> nat \<Rightarrow> int" where
  "anchorMax sz d len =
     int sz - (if d = 1 then int len else 1) - (if d = - 1 then int len else 0)"

text \<open>\<^verbatim>\<open>DIRECTIONS[randomInt(0, DIRECTIONS.length - 1)]\<close>; an index outside the table
  gives \<^verbatim>\<open>undefined\<close>, whose component access raises.\<close>

definition drawDir :: "real \<Rightarrow> error + (int \<times> int)" where
  "drawDir u =
     (let k = randomInt u 0 (int (length DIRECTIONS) - 1)
      in if 0 \<le> k \<and> k < int (length DIRECTIONS) then Inr (DIRECTIONS ! nat k)
         else Inl TypeError)"

text \<open>The validity loop (lines 141-157): \<open>Inr None\<close> is \<^verbatim>\<open>valid = false\<close>, \<open>Inr (Some ps)\<close>
  is \<^verbatim>\<open>valid = true\<close> with the positions collected.\<close>

function scanLine ::
  "nat \<Rightarrow> grid \<Rightarrow> string \<Rightarrow> int \<Rightarrow> int \<Rightarrow> int \<times> int \<Rightarrow> nat \<Rightarrow> pos list
     \<Rightarrow> error + pos list option" where
  "scanLine sz g w row col dir i ps =
     (if i < length w then
        (let r = row + fst dir * int i; c = col + snd dir * int i in
         if r < 0 \<or> r \<ge> int sz \<or> c < 0 \<or> c \<ge> int sz then Inr None
         else (case cellAt g r c of
                 Inl e \<Rightarrow> Inl e
               | Inr v \<Rightarrow>
                   if v \<noteq> Some '''' \<and> v \<noteq> Some [w ! i] then Inr None
                   else scanLine sz g w row col dir (Suc i) (ps @ [(r, c)])))
      else Inr (Some ps))"
  by pat_completeness auto
termination
  by (relation "measure (\<lambda>(sz, g, w, row, col, dir, i, ps). length w - i)") auto

declare scanLine.simps [simp del]

text \<open>The write loop (lines 159-162).\<close>

function writeWord :: "grid \<Rightarrow> string \<Rightarrow> pos list \<Rightarrow> nat \<Rightarrow> error + grid" where
  "writeWord g w ps i =
     (if i < length w then
        (if i < length ps then
           (case setCell g (fst (ps ! i)) (snd (ps ! i)) [w ! i] of
              Inl e \<Rightarrow> Inl e
            | Inr g' \<Rightarrow> writeWord g' w ps (Suc i))
         else Inl TypeError)
      else Inr g)"
  by pat_completeness auto
termination
  by (relation "measure (\<lambda>(g, w, ps, i). length w - i)") auto

declare writeWord.simps [simp del]

text \<open>The generator's state: the grid, the placements so far, and the number of
  \<^verbatim>\<open>Math.random()\<close> calls made.\<close>

type_synonym gen = "grid \<times> WordData list \<times> nat"

text \<open>One pass of the body of the \<^verbatim>\<open>while\<close> loop (lines 132-165); the flag returned is
  \<^verbatim>\<open>placed\<close>.\<close>

definition placementAttempt ::
  "nat \<Rightarrow> string \<Rightarrow> (nat \<Rightarrow> real) \<Rightarrow> gen \<Rightarrow> error + (gen \<times> bool)" where
  "placementAttempt sz w rnd st =
     (case st of (g, wd, n) \<Rightarrow>
        (case drawDir (rnd n) of
           Inl e \<Rightarrow> Inl e
         | Inr dir \<Rightarrow>
             (let row = randomInt (rnd (n + 1)) 0 (anchorMax sz (fst dir) (length w));
                  col = randomInt (rnd (n + 2)) 0 (anchorMax sz (snd dir) (length w))
              in case scanLine sz g w row col dir 0 [] of
                   Inl e \<Rightarrow> Inl e
                 | Inr None \<Rightarrow> Inr ((g, wd, n + 3), False)
                 | Inr (Some ps) \<Rightarrow>
                     (case writeWord g w ps 0 of
                        Inl e \<Rightarrow> Inl e
                      | Inr g' \<Rightarrow>
                          Inr ((g', wd @ [\<lparr>word = w, foundBy = None, positions = ps\<rparr>],
                                n + 3), True)))))"

text \<open>\<^verbatim>\<open>while (!placed && tries < 100)\<close> (lines 131-167).\<close>

function placeLoop ::
  "nat \<Rightarrow> string \<Rightarrow> (nat \<Rightarrow> real) \<Rightarrow> bool \<Rightarrow> nat \<Rightarrow> gen \<Rightarrow> error + gen" where
  "placeLoop sz w rnd placed tries st =
     (if \<not> placed \<and> tries < 100 then
        (case placementAttempt sz w rnd st of
           Inl e \<Rightarrow> Inl e
         | Inr (st', placed') \<Rightarrow> placeLoop sz w rnd placed' (Suc tries) st')
      else Inr st)"
  by pat_completeness auto
termination
  by (relation "measure (\<lambda>(sz, w, rnd, placed, tries, st). 100 - tries)") auto

declare placeLoop.simps [simp del]

text \<open>\<^verbatim>\<open>for (let word of words)\<close> (lines 127-168).\<close>

fun placeWords :: "nat \<Rightarrow> string list \<Rightarrow> (nat \<Rightarrow> real) \<Rightarrow> gen \<Rightarrow> error + gen" where
  "placeWords sz [] rnd st = Inr st"
| "placeWords sz (w # ws) rnd st =
     (case placeLoop sz (toUpperCase w) rnd False 0 st of
        Inl e \<Rightarrow> Inl e
      | Inr st' \<Rightarrow> placeWords sz ws rnd st')"

text \<open>The random fill (lines 171-177): the inner loop over the columns of row \<open>r\<close>, then
  the outer loop over the rows.\<close>

function fillRow ::
  "nat \<Rightarrow> (nat \<Rightarrow> real) \<Rightarrow> nat \<Rightarrow> nat \<Rightarrow> grid \<times> nat \<Rightarrow> error + grid \<times> nat" where
  "fillRow sz rnd r c st =
     (if c < sz then
        (case st of (g, n) \<Rightarrow>
           (case cellAt g (int r) (int c) of
              Inl e \<Rightarrow> Inl e
            | Inr v \<Rightarrow>
                if v = Some '''' then
                  (case setCell g (int r) (int c) [char_of (65 + randomInt (rnd n) 0 25)] of
                     Inl e \<Rightarrow> Inl e
                   | Inr g' \<Rightarrow> fillRow sz rnd r (Suc c) (g', Suc n))
                else fillRow sz rnd r (Suc c) (g, n)))
      else Inr st)"
  by pat_completeness auto
termination
  by (relation "measure (\<lambda>(sz, rnd, r, c, st). sz - c)") auto

declare fillRow.simps [simp del]

function fillGrid ::
  "nat \<Rightarrow> (nat \<Rightarrow> real) \<Rightarrow> nat \<Rightarrow> grid \<times> nat \<Rightarrow> error + grid \<times> nat" where
  "fillGrid sz rnd r st =
     (if r < sz then
        (case fillRow sz rnd r 0 st of
           Inl e \<Rightarrow> Inl e
         | Inr st' \<Rightarrow> fillGrid sz rnd (Suc r) st')
      else Inr st)"
  by pat_completeness auto
termination
  by (relation "measure (\<lambda>(sz, rnd, r, st). sz - r)") auto

declare fillGrid.simps [simp del]

definition generateGrid ::
  "nat \<Rightarrow> string list \<Rightarrow> (nat \<Rightarrow> real) \<Rightarrow> error + grid \<times> WordData list" where
  "generateGrid sz ws rnd =
     (case placeWords sz ws rnd (emptyGrid sz, [], 0) of
        Inl e \<Rightarrow> Inl e
      | Inr (g, wd, n) \<Rightarrow>
          (case fillGrid sz rnd 0 (g, n) of
             Inl e \<Rightarrow> Inl e
           | Inr (g', n') \<Rightarrow> Inr (g', wd)))"

section \<open>Selection helpers (lines 182-213)\<close>

text \<open>The \<^verbatim>\<open>for (let i = 0; i <= len; ++i) line.push(...)\<close> loop of getLine.\<close>

function lineLoop :: "int \<Rightarrow> int \<Rightarrow> int \<Rightarrow> int \<Rightarrow> nat \<Rightarrow> nat \<Rightarrow> pos list \<Rightarrow> pos list" where
  "lineLoop r1 c1 stepR stepC len i line =
     (if i \<le> len
      then lineLoop r1 c1 stepR stepC len (Suc i) (line @ [(r1 + stepR * int i, c1 + stepC * int i)])
      else line)"
  by pat_completeness auto
termination
  by (relation "measure (\<lambda>(r1, c1, stepR, stepC, len, i, line). Suc len - i)") auto

declare lineLoop.simps [simp del]

text \<open>\<open>None\<close> is the \<^verbatim>\<open>null\<close> returned for a pair that is not on a straight line.\<close>

definition getLine :: "pos \<Rightarrow> pos \<Rightarrow> pos list option" where
  "getLine start end' =
     (case start of (r1, c1) \<Rightarrow> case end' of (r2, c2) \<Rightarrow>
        (let dr = r2 - r1; dc = c2 - c1; len = max \<bar>dr\<bar> \<bar>dc\<bar> in
         if \<not> ((dr = 0 \<and> dc \<noteq> 0) \<or> (dc = 0 \<and> dr \<noteq> 0) \<or> \<bar>dr\<bar> = \<bar>dc\<bar>) then None
         else (let stepR = (if dr = 0 then 0 else dr div \<bar>dr\<bar>);
                   stepC = (if dc = 0 then 0 else dc div \<bar>dc\<bar>)
               in Some (lineLoop r1 c1 stepR stepC (nat len) 0 []))))"

definition arraysEqual :: "pos list \<Rightarrow> pos list \<Rightarrow> bool" where
  "arraysEqual a b =
     (if length a \<noteq> length b then False
      else list_all (\<lambda>i. fst (a ! i) = fst (b ! i) \<and> snd (a ! i) = snd (b ! i)) [0..<length a])"

section \<open>The session (lines 249-480)\<close>

datatype gstate = Setup | Playing | Completed | AnimatingAI | AnimatingPlayer

record FoundWord =
  fw_word :: string
  fw_by :: actor
  fw_positions :: "pos list"

text \<open>
  A pending \<^verbatim>\<open>setTimeout\<close> callback: the player's claim (400 ms, handleCellMouseUp), the
  rival's claim (700 ms, interval callback) and the completion scheduled by the interval
  callback (1200 ms). The source keeps no handle of any of them and never cancels one.
\<close>

datatype timeout = PlayerClaim string WordData | AiClaim WordData | Finish

record game =
  difficulty :: Difficulty
  gameState :: gstate
  grid :: grid
  wordList :: "WordData list"
  selected :: "pos list"
  foundWords :: "FoundWord list"
  playerScore :: nat
  aiScore :: nat
  aiHighlight :: "pos list"
  aiThinking :: bool
  timeouts :: "timeout list"

text \<open>The state of the component when it mounts (the \<^verbatim>\<open>useState\<close> initial values).\<close>

definition initial :: game where
  "initial = \<lparr>difficulty = Easy, gameState = Setup, grid = [], wordList = [], selected = [],
     foundWords = [], playerScore = 0, aiScore = 0, aiHighlight = [], aiThinking = False,
     timeouts = []\<rparr>"

text \<open>startGame (lines 296-308). Were the generator to raise, no setter would run and the
  state would stay as it is; it never does for draws in \<open>[0, 1)\<close>, as is proved below.\<close>

definition startGame :: "game \<Rightarrow> Difficulty \<Rightarrow> (nat \<Rightarrow> real) \<Rightarrow> game" where
  "startGame s dif rnd =
     (let conf = DIFFICULTY_CONFIG dif in
      case generateGrid (gridSize conf) (words conf) rnd of
        Inl e \<Rightarrow> s
      | Inr (g, wd) \<Rightarrow>
          s\<lparr>grid := g, wordList := wd, foundWords := [], selected := [], playerScore := 0,
            aiScore := 0, aiHighlight := [], aiThinking := False, gameState := Playing\<rparr>)"

text \<open>getSelectedWord (lines 311-324): the first placement of the list, in order, that is
  not found yet and whose cells are the selection, forwards or reversed.\<close>

fun getSelectedWord :: "WordData list \<Rightarrow> pos list \<Rightarrow> string \<times> WordData option" where
  "getSelectedWord [] ps = ('''', None)"
| "getSelectedWord (wd # wl) ps =
     (if foundBy wd = None \<and>
         (arraysEqual (positions wd) ps \<or> arraysEqual (rev (positions wd)) ps)
      then (word wd, Some wd)
      else getSelectedWord wl ps)"

definition handleCellMouseDown :: "game \<Rightarrow> int \<Rightarrow> int \<Rightarrow> game" where
  "handleCellMouseDown s r c =
     (if gameState s \<noteq> Playing then s else s\<lparr>selected := [(r, c)]\<rparr>)"

definition handleCellMouseEnter :: "game \<Rightarrow> int \<Rightarrow> int \<Rightarrow> game" where
  "handleCellMouseEnter s r c =
     (if gameState s \<noteq> Playing \<or> length (selected s) = 0 then s
      else (case getLine (hd (selected s)) (r, c) of
              None \<Rightarrow> s
            | Some line \<Rightarrow> s\<lparr>selected := line\<rparr>))"

definition handleCellMouseUp :: "game \<Rightarrow> game" where
  "handleCellMouseUp s =
     (if gameState s \<noteq> Playing \<or> length (selected s) < 2 then s\<lparr>selected := []\<rparr>
      else (case getSelectedWord (wordList s) (selected s) of
              (w, Some wd) \<Rightarrow>
                if foundBy wd = None
                then s\<lparr>gameState := AnimatingPlayer,
                       timeouts := timeouts s @ [PlayerClaim w wd]\<rparr>
                else s\<lparr>selected := []\<rparr>
            | (w, None) \<Rightarrow> s\<lparr>selected := []\<rparr>))"

text \<open>The callbacks of the three timeouts (lines 349-362, 416-430, 438-440).\<close>

fun runTimeout :: "timeout \<Rightarrow> game \<Rightarrow> game" where
  "runTimeout (PlayerClaim w wd) s =
     s\<lparr>foundWords := foundWords s @ [\<lparr>fw_word = w, fw_by = Player, fw_positions = positions wd\<rparr>],
       wordList := map (\<lambda>x. if word x = w then x\<lparr>foundBy := Some Player\<rparr> else x) (wordList s),
       playerScore := playerScore s + 1,
       selected := [],
       gameState := Playing\<rparr>"
| "runTimeout (AiClaim chosen) s =
     s\<lparr>foundWords := foundWords s @
          [\<lparr>fw_word = word chosen, fw_by = AI, fw_positions = positions chosen\<rparr>],
       wordList := map (\<lambda>x. if word x = word chosen then x\<lparr>foundBy := Some AI\<rparr> else x)
                     (wordList s),
       aiScore := aiScore s + 1,
       aiHighlight := [],
       aiThinking := False,
       gameState := Playing\<rparr>"
| "runTimeout Finish s = s\<lparr>gameState := Completed\<rparr>"

text \<open>
  The interval callback (lines 398-443), with the three draws it may make: \<open>u1\<close> against
  the skill, \<open>u2\<close> against 0.6 on Hard, \<open>u3\<close> for the uniform choice. The dependencies of
  the effect are all the state the callback reads, so it reads the current state. An index
  outside the candidates would make \<^verbatim>\<open>chosen\<close> undefined and \<^verbatim>\<open>chosen.positions\<close> raise
  after \<^verbatim>\<open>setAIThinking(true)\<close>, which ends the callback: the first branch below, never
  taken for a draw \<open>u3\<close> in \<open>[0, 1)\<close>. The sort of the source is stable and descending in
  the length of the word, as \<open>sort_key\<close> on the negated length is.
\<close>

definition unfound :: "WordData list \<Rightarrow> WordData list" where
  "unfound wl = filter (\<lambda>w. foundBy w = None) wl"

definition aiTick :: "game \<Rightarrow> real \<Rightarrow> real \<Rightarrow> real \<Rightarrow> game" where
  "aiTick s u1 u2 u3 =
     (if gameState s \<noteq> Playing then s
      else
        (let conf = DIFFICULTY_CONFIG (difficulty s);
             candidates = unfound (wordList s);
             k = randomInt u3 0 (int (length candidates) - 1);
             byLength = (difficulty s = Hard \<and> u2 < 6 / 10)
         in if u1 < aiSkill conf \<and> length candidates > 0 \<and>
               \<not> byLength \<and> \<not> (0 \<le> k \<and> k < int (length candidates))
            then s\<lparr>aiThinking := True\<rparr>
            else
              (let s1 =
                 (if u1 < aiSkill conf \<and> length candidates > 0 then
                    (let chosen =
                       (if byLength
                        then hd (sort_key (\<lambda>w. - int (length (word w))) candidates)
                        else candidates ! nat k)
                     in s\<lparr>aiThinking := True, aiHighlight := positions chosen,
                          gameState := AnimatingAI,
                          timeouts := timeouts s @ [AiClaim chosen]\<rparr>)
                  else s)
               in if length (unfound (wordList s)) = 0 \<or>
                     length (foundWords s) + 1 \<ge> length (wordList s)
                  then s1\<lparr>timeouts := timeouts s1 @ [Finish]\<rparr>
                  else s1)))"

text \<open>The game-end effect (lines 452-459); it runs after a render in which
  \<^verbatim>\<open>foundWords\<close> was replaced.\<close>

definition gameEndEffect :: "game \<Rightarrow> game" where
  "gameEndEffect s =
     (if gameState s \<noteq> Playing then s
      else if length (unfound (wordList s)) = 0 then s\<lparr>gameState := Completed\<rparr>
      else s)"

text \<open>
  The events of the component: the buttons (Start Game and Play Again call startGame with
  the current difficulty; Restart and Main Menu set the state to setup), the pointer
  events on the grid, a firing of the rival's interval, and the firing of the \<open>k\<close>-th
  pending timeout. Each event runs its handler to completion, then the effects of the
  render that follows: the game-end effect after the renders that replace
  \<^verbatim>\<open>foundWords\<close>, which are those of startGame and of the two claim callbacks. Timeouts
  may fire in any order here, which includes the order of their deadlines.
\<close>

datatype event =
    StartGame "nat \<Rightarrow> real"
  | SetDifficulty Difficulty
  | MainMenu
  | MouseDown int int
  | MouseEnter int int
  | MouseUp
  | MouseLeave
  | Tick real real real
  | Fire nat

fun step :: "game \<Rightarrow> event \<Rightarrow> game" where
  "step s (StartGame rnd) = gameEndEffect (startGame s (difficulty s) rnd)"
| "step s (SetDifficulty d) = s\<lparr>difficulty := d\<rparr>"
| "step s MainMenu = s\<lparr>gameState := Setup\<rparr>"
| "step s (MouseDown r c) = handleCellMouseDown s r c"
| "step s (MouseEnter r c) = handleCellMouseEnter s r c"
| "step s MouseUp = handleCellMouseUp s"
| "step s MouseLeave = s\<lparr>selected := []\<rparr>"
| "step s (Tick u1 u2 u3) = aiTick s u1 u2 u3"
| "step s (Fire k) =
     (if k < length (timeouts s) then
        (let t = timeouts s ! k;
             s' = runTimeout t (s\<lparr>timeouts := take k (timeouts s) @ drop (Suc k) (timeouts s)\<rparr>)
         in case t of Finish \<Rightarrow> s' | _ \<Rightarrow> gameEndEffect s')
      else s)"

text \<open>
  When an event can happen. \<open>rendered\<close>: the button or cell of the event is on the
  screen in the state (the grid and Restart outside the setup screen, Start Game on the
  setup screen, Play Again once completed), the interval exists only while the state is
  playing (a tick is allowed whenever it is, also after the callback has cleared its own
  interval), and a timeout fires only while it is pending. \<open>drawsOK\<close>: every value of
  \<^verbatim>\<open>Math.random()\<close> the event carries is in \<open>[0, 1)\<close>.
\<close>

fun rendered :: "game \<Rightarrow> event \<Rightarrow> bool" where
  "rendered s (StartGame rnd) \<longleftrightarrow> gameState s = Setup \<or> gameState s = Completed"
| "rendered s (SetDifficulty d) \<longleftrightarrow> gameState s = Setup"
| "rendered s MainMenu \<longleftrightarrow> gameState s \<noteq> Setup"
| "rendered s (MouseDown r c) \<longleftrightarrow> gameState s \<noteq> Setup"
| "rendered s (MouseEnter r c) \<longleftrightarrow> gameState s \<noteq> Setup"
| "rendered s MouseUp \<longleftrightarrow> gameState s \<noteq> Setup"
| "rendered s MouseLeave \<longleftrightarrow> gameState s \<noteq> Setup"
| "rendered s (Tick u1 u2 u3) \<longleftrightarrow> gameState s = Playing"
| "rendered s (Fire k) \<longleftrightarrow> k < length (timeouts s)"

fun drawsOK :: "event \<Rightarrow> bool" where
  "drawsOK (StartGame rnd) \<longleftrightarrow> rnd_ok rnd"
| "drawsOK (Tick u1 u2 u3) \<longleftrightarrow> 0 \<le> u1 \<and> u1 < 1 \<and> 0 \<le> u2 \<and> u2 < 1 \<and> 0 \<le> u3 \<and> u3 < 1"
| "drawsOK e \<longleftrightarrow> True"

definition enabled :: "game \<Rightarrow> event \<Rightarrow> bool" where
  "enabled s e \<longleftrightarrow> rendered s e \<and> drawsOK e"

inductive reachable :: "game \<Rightarrow> bool" where
  reachable_initial: "reachable initial"
| reachable_step: "reachable s \<Longrightarrow> enabled s e \<Longrightarrow> reachable (step s e)"

section \<open>Notions of the specification\<close>

subsection \<open>Straight lines and selections\<close>

text \<open>A pair of cells is straight when the row delta is zero, the column delta is zero, or
  the absolute deltas are equal.\<close>

definition straight :: "pos \<Rightarrow> pos \<Rightarrow> bool" where
  "straight a b \<longleftrightarrow>
     fst b - fst a = 0 \<or> snd b - snd a = 0 \<or> \<bar>fst b - fst a\<bar> = \<bar>snd b - snd a\<bar>"

text \<open>The inclusive list of lattice points from \<open>a\<close> to \<open>b\<close> at unit step.\<close>

definition latticeLine :: "pos \<Rightarrow> pos \<Rightarrow> pos list" where
  "latticeLine a b =
     map (\<lambda>i. (fst a + sgn (fst b - fst a) * int i, snd a + sgn (snd b - snd a) * int i))
       [0..<Suc (nat (max \<bar>fst b - fst a\<bar> \<bar>snd b - snd a\<bar>))]"

text \<open>
  A line from the cell \<open>a\<close>: a list that is not empty and whose \<open>i\<close>-th cell is \<open>a\<close> moved
  \<open>i\<close> times by one of the eight directions. A single cell is such a line. A selection is
  well formed when it is empty or a line from its first cell.
\<close>

definition lineFrom :: "pos \<Rightarrow> pos list \<Rightarrow> bool" where
  "lineFrom a sel \<longleftrightarrow>
     sel \<noteq> [] \<and>
     (\<exists>d\<in>set DIRECTIONS.
        sel = map (\<lambda>i. (fst a + fst d * int i, snd a + snd d * int i)) [0..<length sel])"

definition selectionOK :: "pos list \<Rightarrow> bool" where
  "selectionOK sel \<longleftrightarrow> sel = [] \<or> lineFrom (hd sel) sel"

text \<open>Pointer-down and pointer-enter events, and the anchor of the drag after a list of
  events: the cell of the last pointer-down, or else the anchor before the list. The
  anchor of a selection is its first cell.\<close>

definition pointerEvent :: "event \<Rightarrow> bool" where
  "pointerEvent e = (case e of MouseDown r c \<Rightarrow> True | MouseEnter r c \<Rightarrow> True | _ \<Rightarrow> False)"

definition anchorAfter :: "pos option \<Rightarrow> event list \<Rightarrow> pos option" where
  "anchorAfter a0 es = foldl (\<lambda>a e. case e of MouseDown r c \<Rightarrow> Some (r, c) | _ \<Rightarrow> a) a0 es"

definition anchorOf :: "pos list \<Rightarrow> pos option" where
  "anchorOf sel = (if sel = [] then None else Some (hd sel))"

text \<open>A placement matches a selection when it is unclaimed and its cells are the selection,
  forwards or exactly reversed.\<close>

definition matchesSel :: "WordData \<Rightarrow> pos list \<Rightarrow> bool" where
  "matchesSel wd sel \<longleftrightarrow> foundBy wd = None \<and> (positions wd = sel \<or> rev (positions wd) = sel)"

subsection \<open>Grids\<close>

text \<open>A grid of the size \<open>sz\<close> has \<open>sz\<close> rows of \<open>sz\<close> cells; a position is on it when both
  coordinates are in \<open>0..<sz\<close>; \<open>cell g p\<close> is the content at a position on the grid.\<close>

definition wfGrid :: "nat \<Rightarrow> grid \<Rightarrow> bool" where
  "wfGrid sz g \<longleftrightarrow> length g = sz \<and> (\<forall>row\<in>set g. length row = sz)"

definition inGrid :: "nat \<Rightarrow> pos \<Rightarrow> bool" where
  "inGrid sz p \<longleftrightarrow> 0 \<le> fst p \<and> fst p < int sz \<and> 0 \<le> snd p \<and> snd p < int sz"

definition cell :: "grid \<Rightarrow> pos \<Rightarrow> string" where
  "cell g p = g ! nat (fst p) ! nat (snd p)"

text \<open>Reading the grid along a list of positions: the cells concatenated in order, and
  \<open>None\<close> when a position has no cell.\<close>

fun readAlong :: "grid \<Rightarrow> pos list \<Rightarrow> string option" where
  "readAlong g [] = Some []"
| "readAlong g (p # ps) =
     (case cellAt g (fst p) (snd p) of
        Inr (Some s) \<Rightarrow> map_option (\<lambda>rest. s @ rest) (readAlong g ps)
      | _ \<Rightarrow> None)"

text \<open>The characters A to Z (codes 65 to 90), and the letters: A to Z and a to z (codes
  97 to 122).\<close>

definition isAZ :: "char \<Rightarrow> bool" where
  "isAZ ch \<longleftrightarrow> 65 \<le> (of_char ch :: nat) \<and> (of_char ch :: nat) \<le> 90"

definition isLetter :: "char \<Rightarrow> bool" where
  "isLetter ch \<longleftrightarrow> isAZ ch \<or> 97 \<le> (of_char ch :: nat) \<and> (of_char ch :: nat) \<le> 122"

subsection \<open>Placement attempts\<close>

text \<open>
  The \<open>j\<close>-th cell of the line from the anchor \<open>(row, col)\<close> in the direction \<open>dir\<close>. The
  \<open>j\<close>-th letter of a word fits there when the cell is on the grid and is unoccupied or
  already holds that letter.
\<close>

definition lineCell :: "int \<Rightarrow> int \<Rightarrow> int \<times> int \<Rightarrow> nat \<Rightarrow> pos" where
  "lineCell row col dir j = (row + fst dir * int j, col + snd dir * int j)"

definition fits :: "nat \<Rightarrow> grid \<Rightarrow> string \<Rightarrow> int \<Rightarrow> int \<Rightarrow> int \<times> int \<Rightarrow> nat \<Rightarrow> bool" where
  "fits sz g w row col dir j \<longleftrightarrow>
     inGrid sz (lineCell row col dir j) \<and>
     (cell g (lineCell row col dir j) = '''' \<or> cell g (lineCell row col dir j) = [w ! j])"

text \<open>
  The attempt that starts at the draw number \<open>n\<close>: its direction, anchor row and anchor
  column are the draws \<open>n\<close>, \<open>n + 1\<close> and \<open>n + 2\<close>, its cells are the line of the word's
  length, it is valid when every letter fits, and the placement it records has these
  cells and no claimant.
\<close>

definition attemptDir :: "(nat \<Rightarrow> real) \<Rightarrow> nat \<Rightarrow> int \<times> int" where
  "attemptDir rnd n = DIRECTIONS ! nat (randomInt (rnd n) 0 7)"

definition attemptRow :: "nat \<Rightarrow> string \<Rightarrow> (nat \<Rightarrow> real) \<Rightarrow> nat \<Rightarrow> int" where
  "attemptRow sz w rnd n =
     randomInt (rnd (n + 1)) 0 (anchorMax sz (fst (attemptDir rnd n)) (length w))"

definition attemptCol :: "nat \<Rightarrow> string \<Rightarrow> (nat \<Rightarrow> real) \<Rightarrow> nat \<Rightarrow> int" where
  "attemptCol sz w rnd n =
     randomInt (rnd (n + 2)) 0 (anchorMax sz (snd (attemptDir rnd n)) (length w))"

definition attemptCells :: "nat \<Rightarrow> string \<Rightarrow> (nat \<Rightarrow> real) \<Rightarrow> nat \<Rightarrow> pos list" where
  "attemptCells sz w rnd n =
     map (lineCell (attemptRow sz w rnd n) (attemptCol sz w rnd n) (attemptDir rnd n))
       [0..<length w]"

definition attemptValid :: "nat \<Rightarrow> grid \<Rightarrow> string \<Rightarrow> (nat \<Rightarrow> real) \<Rightarrow> nat \<Rightarrow> bool" where
  "attemptValid sz g w rnd n \<longleftrightarrow>
     list_all (fits sz g w (attemptRow sz w rnd n) (attemptCol sz w rnd n) (attemptDir rnd n))
       [0..<length w]"

definition placement :: "nat \<Rightarrow> string \<Rightarrow> (nat \<Rightarrow> real) \<Rightarrow> nat \<Rightarrow> WordData" where
  "placement sz w rnd n = \<lparr>word = w, foundBy = None, positions = attemptCells sz w rnd n\<rparr>"

text \<open>The flag \<^verbatim>\<open>placed\<close> after one pass of the loop body on a state of the generator.\<close>

definition attemptPlaces :: "nat \<Rightarrow> string \<Rightarrow> (nat \<Rightarrow> real) \<Rightarrow> gen \<Rightarrow> bool" where
  "attemptPlaces sz w rnd st =
     (case placementAttempt sz w rnd st of Inl e \<Rightarrow> False | Inr (st', placed) \<Rightarrow> placed)"

subsection \<open>The run over the word list, as the specification words it\<close>

text \<open>
  The grid with the letters of a word written on a list of cells, one letter per cell, in
  order.
\<close>

fun putWord :: "grid \<Rightarrow> string \<Rightarrow> pos list \<Rightarrow> grid" where
  "putWord g (ch # w) (p # ps) =
     putWord (g[nat (fst p) := (g ! nat (fst p))[nat (snd p) := [ch]]]) w ps"
| "putWord g w ps = g"

text \<open>
  One word, already in upper case, on a state of the generator: of the attempts 0 to 99,
  attempt \<open>j\<close> being the one that starts at the draw \<open>n + 3 * j\<close>, the first valid one wins:
  its letters are written on its cells, its placement is appended to the table, and the
  draws up to and including its own are used. When none of the 100 attempts is valid the
  word is dropped: the grid and the table stay as they are, and 300 draws are used.
\<close>

definition specPlaceWord :: "nat \<Rightarrow> (nat \<Rightarrow> real) \<Rightarrow> string \<Rightarrow> gen \<Rightarrow> gen" where
  "specPlaceWord sz rnd w st =
     (case st of (g, wd, n) \<Rightarrow>
        (case find (\<lambda>j. attemptValid sz g w rnd (n + 3 * j)) [0..<100] of
           None \<Rightarrow> (g, wd, n + 300)
         | Some j \<Rightarrow>
             (putWord g w (attemptCells sz w rnd (n + 3 * j)),
              wd @ [placement sz w rnd (n + 3 * j)], n + 3 * (j + 1))))"

text \<open>The words are taken in list order, each in upper case, each on the state the
  words before it have left.\<close>

definition specPlaceWords :: "nat \<Rightarrow> (nat \<Rightarrow> real) \<Rightarrow> string list \<Rightarrow> gen \<Rightarrow> gen" where
  "specPlaceWords sz rnd ws st = foldl (\<lambda>st w. specPlaceWord sz rnd (toUpperCase w) st) st ws"

subsection \<open>The invariant of the generator\<close>

text \<open>
  Every cell on the grid is empty or one character with the property \<open>P\<close>; every
  placement recorded is unclaimed, has one position per letter, and each position is on
  the grid and holds its letter.
\<close>

definition cellsP :: "(char \<Rightarrow> bool) \<Rightarrow> nat \<Rightarrow> grid \<Rightarrow> bool" where
  "cellsP P sz g \<longleftrightarrow>
     (\<forall>q. inGrid sz q \<longrightarrow> cell g q = '''' \<or> (\<exists>ch. cell g q = [ch] \<and> P ch))"

definition placedOK :: "nat \<Rightarrow> grid \<Rightarrow> WordData list \<Rightarrow> bool" where
  "placedOK sz g wd \<longleftrightarrow>
     (\<forall>p\<in>set wd. foundBy p = None \<and> length (positions p) = length (word p) \<and>
        (\<forall>i<length (word p). inGrid sz (positions p ! i) \<and>
           cell g (positions p ! i) = [word p ! i]))"

definition genInv :: "(char \<Rightarrow> bool) \<Rightarrow> nat \<Rightarrow> grid \<Rightarrow> WordData list \<Rightarrow> bool" where
  "genInv P sz g wd \<longleftrightarrow> wfGrid sz g \<and> cellsP P sz g \<and> placedOK sz g wd"

subsection \<open>Pending claims\<close>

text \<open>
  The word a pending timeout will claim (none for the completion timeout), the claims
  pending in a state, and the sessions in which a new game is never started over a pending
  claim: \<open>calm\<close> states are those reached from the initial state by enabled events, a
  game start being allowed only when no claim is pending.
\<close>

fun claimWord :: "timeout \<Rightarrow> string option" where
  "claimWord (PlayerClaim w wd) = Some w"
| "claimWord (AiClaim chosen) = Some (word chosen)"
| "claimWord Finish = None"

definition pendingClaims :: "game \<Rightarrow> timeout list" where
  "pendingClaims s = filter (\<lambda>t. claimWord t \<noteq> None) (timeouts s)"

fun isStart :: "event \<Rightarrow> bool" where
  "isStart (StartGame rnd) \<longleftrightarrow> True"
| "isStart e \<longleftrightarrow> False"

definition calmStep :: "game \<Rightarrow> event \<Rightarrow> bool" where
  "calmStep s e \<longleftrightarrow> enabled s e \<and> (isStart e \<longrightarrow> pendingClaims s = [])"

inductive calm :: "game \<Rightarrow> bool" where
  calm_initial: "calm initial"
| calm_step: "calm s \<Longrightarrow> calmStep s e \<Longrightarrow> calm (step s e)"

text \<open>
  The invariant of calm sessions: entries of the word list with the same word have the
  same claimant; at most one claim is pending, and none while the state is playing; the
  word of a pending claim is unclaimed.
\<close>

definition claimInv :: "game \<Rightarrow> bool" where
  "claimInv s \<longleftrightarrow>
     (\<forall>x\<in>set (wordList s). \<forall>y\<in>set (wordList s). word x = word y \<longrightarrow> foundBy x = foundBy y) \<and>
     length (pendingClaims s) \<le> 1 \<and>
     (pendingClaims s \<noteq> [] \<longrightarrow> gameState s \<noteq> Playing) \<and>
     (\<forall>t\<in>set (pendingClaims s). \<forall>y\<in>set (wordList s).
        claimWord t = Some (word y) \<longrightarrow> foundBy y = None)"

subsection \<open>Running lists of events\<close>

text \<open>A list of events can run from a state when each event is rendered at its turn, and
  runs calmly when moreover no game start finds a claim pending.\<close>

fun runnable :: "game \<Rightarrow> event list \<Rightarrow> bool" where
  "runnable s [] \<longleftrightarrow> True"
| "runnable s (e # es) \<longleftrightarrow> rendered s e \<and> runnable (step s e) es"

fun calmRunnable :: "game \<Rightarrow> event list \<Rightarrow> bool" where
  "calmRunnable s [] \<longleftrightarrow> True"
| "calmRunnable s (e # es) \<longleftrightarrow>
     rendered s e \<and> (isStart e \<longrightarrow> pendingClaims s = []) \<and> calmRunnable (step s e) es"

text \<open>What is observed of a state: the state of the session, the words and their
  claimants, the found-words log, the scores and the pending timeouts.\<close>

definition summary ::
  "game \<Rightarrow> gstate \<times> string list \<times> actor option list \<times> (string \<times> actor) list \<times> nat \<times> nat \<times> timeout list" where
  "summary s = (gameState s, map word (wordList s), map foundBy (wordList s),
     map (\<lambda>f. (fw_word f, fw_by f)) (foundWords s), playerScore s, aiScore s, timeouts s)"

section \<open>Concrete inputs\<close>

subsection \<open>Sources of draws and the grids they give\<close>

text \<open>
  All draws zero: the direction is right, the anchor is (0, 0) and the fill letter is A.
  With \<open>rnd_cross\<close> the second word is placed downwards from (0, 0), so that the words cat
  and cot share their first cell on the 3 by 3 grid \<open>g_cross\<close>. With \<open>rnd_up\<close> the first
  attempt draws the direction of index 3, up, and the anchor (0, 0).
\<close>

definition rnd_zero :: "nat \<Rightarrow> real" where
  "rnd_zero n = 0"

definition rnd_cross :: "nat \<Rightarrow> real" where
  "rnd_cross n = (if n = 3 then 1 / 8 else 0)"

text \<open>
  With all draws zero and the words cat, dog, ca on the 3 by 3 grid: cat is placed
  rightwards from (0, 0); every attempt for dog draws the same line and meets the C, so
  that dog is dropped after 100 attempts and 300 draws; ca is then placed on the first
  two cells of cat. With \<open>rnd_second\<close> and the words cat, cot: the first attempt for cot,
  at the draw 3, draws the line of cat and meets the A, and its second attempt, at the
  draw 6, goes downwards from (0, 0) and is valid.
\<close>

definition rnd_second :: "nat \<Rightarrow> real" where
  "rnd_second n = (if n = 6 then 1 / 8 else 0)"

text \<open>The 3 by 3 grid once cat is placed, once cot is placed as well, before the fill, and
  the grid and the table returned for cat, dog, ca.\<close>

definition g_cat :: grid where
  "g_cat = [[''C'', ''A'', ''T''], ['''', '''', ''''], ['''', '''', '''']]"

definition g_cot :: grid where
  "g_cot = [[''C'', ''A'', ''T''], [''O'', '''', ''''], [''T'', '''', '''']]"

definition g_ca :: grid where
  "g_ca = [[''C'', ''A'', ''T''], [''A'', ''A'', ''A''], [''A'', ''A'', ''A'']]"

definition wd_ca :: "WordData list" where
  "wd_ca = [\<lparr>word = ''CAT'', foundBy = None, positions = [(0, 0), (0, 1), (0, 2)]\<rparr>,
            \<lparr>word = ''CA'', foundBy = None, positions = [(0, 0), (0, 1)]\<rparr>]"

definition g_cross :: grid where
  "g_cross = [[''C'', ''A'', ''T''], [''O'', ''A'', ''A''], [''T'', ''A'', ''A'']]"

definition wd_cross :: "WordData list" where
  "wd_cross = [\<lparr>word = ''CAT'', foundBy = None, positions = [(0, 0), (0, 1), (0, 2)]\<rparr>,
               \<lparr>word = ''COT'', foundBy = None, positions = [(0, 0), (1, 0), (2, 0)]\<rparr>]"

definition rnd_up :: "nat \<Rightarrow> real" where
  "rnd_up n = (if n = 0 then 3 / 8 else 0)"

text \<open>
  Two sources of draws for the Easy table: with \<open>rnd0\<close> every word is placed at its first
  attempt, left to right, CAT to CAR on the rows 0 to 7 from column 0 and BIRD and STAR
  on the rows 0 and 1 from column 4; with \<open>rnd1\<close> every word is placed downwards, CAT to
  CAR on the columns 0 to 7 from row 0 and BIRD and STAR on the columns 0 and 1 from row
  4. Both fill the remaining cells with the letter A.
\<close>

definition draws0 :: "real list" where
  "draws0 = [0, 0, 0,  0, 1/8, 0,  0, 2/8, 0,  0, 3/8, 0,  0, 4/8, 0,  0, 5/8, 0,  0, 6/8, 0,
             0, 7/8, 0,  0, 0, 4/5,  0, 1/8, 4/5]"

definition rnd0 :: "nat \<Rightarrow> real" where
  "rnd0 n = (if n < length draws0 then draws0 ! n else 0)"

definition draws1 :: "real list" where
  "draws1 = [1/8, 0, 0,  1/8, 0, 1/8,  1/8, 0, 2/8,  1/8, 0, 3/8,  1/8, 0, 4/8,  1/8, 0, 5/8,
             1/8, 0, 6/8,  1/8, 0, 7/8,  1/8, 4/5, 0,  1/8, 4/5, 1/8]"

definition rnd1 :: "nat \<Rightarrow> real" where
  "rnd1 n = (if n < length draws1 then draws1 ! n else 0)"

subsection \<open>States and sessions\<close>

text \<open>A state in the middle of a drag; two placements on disjoint rows, and a state whose
  selection is a diagonal pair that matches neither.\<close>

definition s_demo :: game where
  "s_demo = initial\<lparr>gameState := Playing, selected := [(0, 0), (0, 1)]\<rparr>"

definition wl_demo :: "WordData list" where
  "wl_demo = [\<lparr>word = ''CAT'', foundBy = None, positions = [(0, 0), (0, 1), (0, 2)]\<rparr>,
              \<lparr>word = ''DOG'', foundBy = None, positions = [(1, 0), (1, 1), (1, 2)]\<rparr>]"

definition s_miss :: game where
  "s_miss = initial\<lparr>gameState := Playing, wordList := wl_demo, selected := [(0, 0), (1, 1)]\<rparr>"

text \<open>A game on Easy is started and the player drags from (0, 0) to (0, 1); then the
  pointer moves on, a new drag starts at (2, 2) and goes to (2, 4), over (3, 4), which is
  not on a line with (2, 2), and to (0, 0).\<close>

definition trace_drag :: "event list" where
  "trace_drag = [StartGame rnd0, MouseDown 0 0, MouseEnter 0 1]"

definition trace_moves :: "event list" where
  "trace_moves = [MouseEnter 0 3, MouseDown 2 2, MouseEnter 2 4, MouseEnter 3 4, MouseEnter 0 0]"

text \<open>
  A game on Easy in which the rival claims nine words, each claim a tick whose first draw
  is below the skill 0.3 followed by its timeout, and then idles at a tick (first draw
  0.5) while STAR is still unclaimed; the last event fires the timeout that tick left.
\<close>

definition trace_early :: "event list" where
  "trace_early = [StartGame rnd0,
     Tick 0 0 0, Fire 0, Tick 0 0 0, Fire 0, Tick 0 0 0, Fire 0,
     Tick 0 0 0, Fire 0, Tick 0 0 0, Fire 0, Tick 0 0 0, Fire 0,
     Tick 0 0 0, Fire 0, Tick 0 0 0, Fire 0, Tick 0 0 0, Fire 0,
     Tick (1 / 2) 0 0, Fire 0]"

text \<open>A game on Easy in which the player drags over CAT, releases, and the claim's
  timeout fires.\<close>

definition trace_claimed :: "event list" where
  "trace_claimed = [StartGame rnd0, MouseDown 0 0, MouseEnter 0 2, MouseUp, Fire 0]"

text \<open>
  A rival claim is pending (its timeout of 700 ms) when the player goes back to the menu
  and starts a new game, whose grid has CAT in the first column; the player drags over
  CAT and releases before the rival's timeout fires, which leaves the player's timeout
  (400 ms) pending after it.
\<close>

definition trace_flip :: "event list" where
  "trace_flip = [StartGame rnd0, Tick 0 0 0, MainMenu, StartGame rnd1,
                 MouseDown 0 0, MouseEnter 2 0, MouseUp, Fire 0]"

section \<open>Running sessions\<close>

lemma in01_nth:
  assumes "list_all (\<lambda>u. 0 \<le> u \<and> u < (1::real)) ds"
  shows "rnd_ok (\<lambda>n. if n < length ds then ds ! n else 0)"
  using assms by (auto simp: rnd_ok_def list_all_length)

lemma rnd_ok_rnd0: "rnd_ok rnd0"
proof -
  have "list_all (\<lambda>u. 0 \<le> u \<and> u < (1::real)) draws0" by (simp add: draws0_def)
  from in01_nth [OF this] show ?thesis by (simp add: rnd0_def [abs_def])
qed

lemma rnd_ok_rnd1: "rnd_ok rnd1"
proof -
  have "list_all (\<lambda>u. 0 \<le> u \<and> u < (1::real)) draws1" by (simp add: draws1_def)
  from in01_nth [OF this] show ?thesis by (simp add: rnd1_def [abs_def])
qed

lemma reachable_run:
  "reachable s \<Longrightarrow> runnable s es \<Longrightarrow> list_all drawsOK es \<Longrightarrow> reachable (foldl step s es)"
proof (induction es arbitrary: s)
  case Nil
  then show ?case by simp
next
  case (Cons e es)
  then have "enabled s e" by (simp add: enabled_def)
  with Cons.prems(1) have "reachable (step s e)" by (rule reachable_step)
  with Cons show ?case by simp
qed

section \<open>getLine\<close>

lemma lineLoop_map:
  "lineLoop r1 c1 sr sc len i line =
     line @ map (\<lambda>j. (r1 + sr * int j, c1 + sc * int j)) [i..<Suc len]"
proof (induction r1 c1 sr sc len i line rule: lineLoop.induct)
  case (1 r1 c1 sr sc len i line)
  show ?case
  proof (cases "i \<le> len")
    case True
    then have "[i..<Suc len] = i # [Suc i..<Suc len]"
      by (simp add: upt_conv_Cons)
    with True "1.IH" show ?thesis
      by (subst lineLoop.simps) simp
  next
    case False
    then show ?thesis
      by (subst lineLoop.simps) simp
  qed
qed

lemma div_abs_sgn: "(if d = 0 then 0 else d div \<bar>d\<bar>) = sgn (d::int)"
proof (cases "d < 0")
  case True
  have "(- 1 * (- d)) div (- d) = - 1"
    using True by (intro nonzero_mult_div_cancel_right) simp
  with True show ?thesis by (simp add: sgn_if)
next
  case False
  then show ?thesis by (simp add: sgn_if)
qed

lemma getLine_eq:
  "getLine a b = (if straight a b then Some (latticeLine a b) else None)"
proof -
  obtain r1 c1 r2 c2 where ab: "a = (r1, c1)" "b = (r2, c2)"
    by (cases a, cases b) blast
  have cond: "((r2 - r1 = 0 \<and> c2 - c1 \<noteq> 0) \<or> (c2 - c1 = 0 \<and> r2 - r1 \<noteq> 0) \<or>
               \<bar>r2 - r1\<bar> = \<bar>c2 - c1\<bar>) \<longleftrightarrow> straight a b"
    unfolding straight_def ab by auto
  show ?thesis
    unfolding getLine_def ab prod.case Let_def div_abs_sgn lineLoop_map
    using cond unfolding ab
    by (simp add: latticeLine_def)
qed

lemma latticeLine_length:
  "length (latticeLine a b) = nat (max \<bar>fst b - fst a\<bar> \<bar>snd b - snd a\<bar>) + 1"
  by (simp add: latticeLine_def)

lemma latticeLine_hd: "hd (latticeLine a b) = a"
  by (simp add: latticeLine_def upt_conv_Cons del: upt_Suc)

lemma latticeLine_last:
  "straight a b \<Longrightarrow> last (latticeLine a b) = b"
  unfolding latticeLine_def straight_def
  by (cases a; cases b) (auto simp: last_map sgn_if max_def split: if_splits)

lemma latticeLine_nth:
  "i < length (latticeLine a b) \<Longrightarrow>
     latticeLine a b ! i = (fst a + sgn (fst b - fst a) * int i, snd a + sgn (snd b - snd a) * int i)"
  unfolding latticeLine_def by (simp del: upt_Suc)

text \<open>
  C5. getLine returns a sequence exactly for a straight pair (row delta zero, column delta
  zero, or equal absolute deltas). The sequence returned is the inclusive list of lattice
  points from the anchor to the candidate: it has \<open>max |dr| |dc| + 1\<close> cells, starts at the
  anchor, ends at the candidate, and consecutive cells differ by the unit step. On a pair
  that is not straight, handleCellMouseEnter leaves the state, and with it the selection in
  progress, as it was.
\<close>

theorem getLine_straight_line:
  "(getLine a b \<noteq> None \<longleftrightarrow> straight a b) \<and>
   (\<forall>line. getLine a b = Some line \<longrightarrow>
      line = latticeLine a b \<and>
      length line = nat (max \<bar>fst b - fst a\<bar> \<bar>snd b - snd a\<bar>) + 1 \<and>
      hd line = a \<and> last line = b \<and>
      (\<forall>i. Suc i < length line \<longrightarrow>
         fst (line ! Suc i) - fst (line ! i) = sgn (fst b - fst a) \<and>
         snd (line ! Suc i) - snd (line ! i) = sgn (snd b - snd a))) \<and>
   (\<not> straight (hd (selected s)) (r, c) \<longrightarrow> handleCellMouseEnter s r c = s)"
proof (intro conjI allI impI)
  show "getLine a b \<noteq> None \<longleftrightarrow> straight a b"
    by (simp add: getLine_eq)
next
  fix line assume "getLine a b = Some line"
  then have st: "straight a b" and l: "line = latticeLine a b"
    by (auto simp: getLine_eq split: if_splits)
  show "line = latticeLine a b" by (rule l)
  show "length line = nat (max \<bar>fst b - fst a\<bar> \<bar>snd b - snd a\<bar>) + 1"
    by (simp add: l latticeLine_length)
  show "hd line = a" by (simp add: l latticeLine_hd)
  show "last line = b" by (simp add: l latticeLine_last st)
  fix i assume "Suc i < length line"
  then have "Suc i < length (latticeLine a b)" "i < length (latticeLine a b)"
    by (simp_all add: l)
  then show "fst (line ! Suc i) - fst (line ! i) = sgn (fst b - fst a)"
    and "snd (line ! Suc i) - snd (line ! i) = sgn (snd b - snd a)"
    by (simp_all add: l latticeLine_nth algebra_simps)
next
  assume "\<not> straight (hd (selected s)) (r, c)"
  then show "handleCellMouseEnter s r c = s"
    by (simp add: handleCellMouseEnter_def getLine_eq)
qed

theorem getLine_straight_line_witness:
  "getLine (2, 5) (2, 1) = Some [(2, 5), (2, 4), (2, 3), (2, 2), (2, 1)] \<and>
   straight (2, 5) (2, 1) \<and>
   \<not> straight (hd (selected s_demo)) (1, 2) \<and>
   handleCellMouseEnter s_demo 1 2 = s_demo \<and> selected s_demo = [(0, 0), (0, 1)]"
proof -
  have a: "getLine (2, 5) (2, 1) = Some [(2, 5), (2, 4), (2, 3), (2, 2), (2, 1)]"
    by code_simp
  have b: "\<not> straight (hd (selected s_demo)) (1, 2)"
    by code_simp
  have c: "selected s_demo = [(0, 0), (0, 1)]"
    by code_simp
  from getLine_straight_line [of "(2, 5)" "(2, 1)" s_demo 1 2] a b c
  show ?thesis by simp
qed

section \<open>getSelectedWord and the pointer release\<close>

lemma arraysEqual_eq: "arraysEqual a b \<longleftrightarrow> a = b"
proof
  assume "arraysEqual a b"
  then have len: "length a = length b"
    and nth: "\<forall>i<length a. fst (a ! i) = fst (b ! i) \<and> snd (a ! i) = snd (b ! i)"
    by (auto simp: arraysEqual_def list_all_iff split: if_splits)
  show "a = b"
  proof (rule nth_equalityI)
    show "length a = length b" by (rule len)
    fix i assume "i < length a"
    with nth show "a ! i = b ! i" by (simp add: prod_eq_iff)
  qed
next
  assume "a = b"
  then show "arraysEqual a b" by (simp add: arraysEqual_def list_all_iff)
qed

lemma getSelectedWord_find:
  "getSelectedWord wl sel =
     (case find (\<lambda>wd. matchesSel wd sel) wl of None \<Rightarrow> ('''', None) | Some wd \<Rightarrow> (word wd, Some wd))"
  by (induction wl) (simp_all add: arraysEqual_eq matchesSel_def)

lemma matchesSel_rev: "matchesSel wd (rev sel) \<longleftrightarrow> matchesSel wd sel"
  by (auto simp: matchesSel_def rev_swap)

lemma getSelectedWord_rev: "getSelectedWord wl (rev sel) = getSelectedWord wl sel"
  by (simp add: getSelectedWord_find matchesSel_rev)

lemma handleCellMouseUp_match:
  assumes "gameState s = Playing" "2 \<le> length sel"
    and "getSelectedWord (wordList s) sel = (w, Some x)" "foundBy x = None"
  shows "handleCellMouseUp (s\<lparr>selected := sel\<rparr>) =
           s\<lparr>selected := sel, gameState := AnimatingPlayer,
             timeouts := timeouts s @ [PlayerClaim w x]\<rparr>"
  using assms by (simp add: handleCellMouseUp_def)

text \<open>
  C6. getSelectedWord returns the first placement of the list that is unclaimed and whose
  cells are the selection forwards or exactly reversed, and returns one exactly when such a
  placement exists. For an unclaimed placement of the list with at least two cells, the
  selection of its cells in forward order and the selection in reverse order resolve to the
  same placement and word, and the pointer release schedules the same claim for both.
\<close>

theorem getSelectedWord_forward_reverse:
  "snd (getSelectedWord wl sel) = find (\<lambda>x. matchesSel x sel) wl \<and>
   (snd (getSelectedWord wl sel) \<noteq> None \<longleftrightarrow> (\<exists>x\<in>set wl. matchesSel x sel)) \<and>
   (wd \<in> set wl \<and> foundBy wd = None \<and> 2 \<le> length (positions wd) \<longrightarrow>
      (\<exists>x. x \<in> set wl \<and> matchesSel x (positions wd) \<and>
           getSelectedWord wl (positions wd) = (word x, Some x) \<and>
           getSelectedWord wl (rev (positions wd)) = (word x, Some x) \<and>
           (gameState s = Playing \<and> wordList s = wl \<longrightarrow>
              timeouts (handleCellMouseUp (s\<lparr>selected := positions wd\<rparr>)) =
                timeouts s @ [PlayerClaim (word x) x] \<and>
              timeouts (handleCellMouseUp (s\<lparr>selected := rev (positions wd)\<rparr>)) =
                timeouts s @ [PlayerClaim (word x) x])))"
proof (intro conjI impI)
  show f: "snd (getSelectedWord wl sel) = find (\<lambda>x. matchesSel x sel) wl"
    by (simp add: getSelectedWord_find split: option.split)
  show "snd (getSelectedWord wl sel) \<noteq> None \<longleftrightarrow> (\<exists>x\<in>set wl. matchesSel x sel)"
    unfolding f by (auto simp: find_None_iff)
next
  assume a: "wd \<in> set wl \<and> foundBy wd = None \<and> 2 \<le> length (positions wd)"
  then have "\<exists>x\<in>set wl. matchesSel x (positions wd)"
    by (auto simp: matchesSel_def)
  then obtain x where x: "find (\<lambda>x. matchesSel x (positions wd)) wl = Some x"
    by (cases "find (\<lambda>x. matchesSel x (positions wd)) wl") (auto simp: find_None_iff)
  then have mem: "x \<in> set wl" and m: "matchesSel x (positions wd)"
    by (auto simp: find_Some_iff)
  from x have fwd: "getSelectedWord wl (positions wd) = (word x, Some x)"
    by (simp add: getSelectedWord_find)
  then have bwd: "getSelectedWord wl (rev (positions wd)) = (word x, Some x)"
    by (simp add: getSelectedWord_rev)
  have up: "timeouts (handleCellMouseUp (s\<lparr>selected := positions wd\<rparr>)) =
                timeouts s @ [PlayerClaim (word x) x] \<and>
            timeouts (handleCellMouseUp (s\<lparr>selected := rev (positions wd)\<rparr>)) =
                timeouts s @ [PlayerClaim (word x) x]"
    if "gameState s = Playing \<and> wordList s = wl"
  proof -
    from m have fx: "foundBy x = None" by (simp add: matchesSel_def)
    from a have l: "2 \<le> length (positions wd)" "2 \<le> length (rev (positions wd))" by simp_all
    from that fwd bwd show ?thesis
      by (simp add: handleCellMouseUp_match [OF _ l(1) _ fx]
          handleCellMouseUp_match [OF _ l(2) _ fx])
  qed
  from mem m fwd bwd up
  show "\<exists>x. x \<in> set wl \<and> matchesSel x (positions wd) \<and>
           getSelectedWord wl (positions wd) = (word x, Some x) \<and>
           getSelectedWord wl (rev (positions wd)) = (word x, Some x) \<and>
           (gameState s = Playing \<and> wordList s = wl \<longrightarrow>
              timeouts (handleCellMouseUp (s\<lparr>selected := positions wd\<rparr>)) =
                timeouts s @ [PlayerClaim (word x) x] \<and>
              timeouts (handleCellMouseUp (s\<lparr>selected := rev (positions wd)\<rparr>)) =
                timeouts s @ [PlayerClaim (word x) x])"
    by blast
qed

theorem getSelectedWord_forward_reverse_witness:
  "wl_demo ! 0 \<in> set wl_demo \<and> foundBy (wl_demo ! 0) = None \<and>
   2 \<le> length (positions (wl_demo ! 0)) \<and>
   gameState s_miss = Playing \<and> wordList s_miss = wl_demo \<and>
   getSelectedWord wl_demo [(0, 0), (0, 1), (0, 2)] = (''CAT'', Some (wl_demo ! 0)) \<and>
   getSelectedWord wl_demo [(0, 2), (0, 1), (0, 0)] = (''CAT'', Some (wl_demo ! 0)) \<and>
   (\<exists>x. x \<in> set wl_demo \<and> matchesSel x (positions (wl_demo ! 0)) \<and>
        getSelectedWord wl_demo (positions (wl_demo ! 0)) = (word x, Some x) \<and>
        getSelectedWord wl_demo (rev (positions (wl_demo ! 0))) = (word x, Some x) \<and>
        timeouts (handleCellMouseUp (s_miss\<lparr>selected := positions (wl_demo ! 0)\<rparr>)) =
          timeouts s_miss @ [PlayerClaim (word x) x] \<and>
        timeouts (handleCellMouseUp (s_miss\<lparr>selected := rev (positions (wl_demo ! 0))\<rparr>)) =
          timeouts s_miss @ [PlayerClaim (word x) x])"
proof -
  have h: "wl_demo ! 0 \<in> set wl_demo \<and> foundBy (wl_demo ! 0) = None \<and>
           2 \<le> length (positions (wl_demo ! 0))"
    by code_simp
  have g: "gameState s_miss = Playing \<and> wordList s_miss = wl_demo"
    by (simp add: s_miss_def)
  have e1: "getSelectedWord wl_demo [(0, 0), (0, 1), (0, 2)] = (''CAT'', Some (wl_demo ! 0))"
    by code_simp
  have e2: "getSelectedWord wl_demo [(0, 2), (0, 1), (0, 0)] = (''CAT'', Some (wl_demo ! 0))"
    by code_simp
  from getSelectedWord_forward_reverse [of wl_demo "[]" "wl_demo ! 0" s_miss] h g
  have "\<exists>x. x \<in> set wl_demo \<and> matchesSel x (positions (wl_demo ! 0)) \<and>
        getSelectedWord wl_demo (positions (wl_demo ! 0)) = (word x, Some x) \<and>
        getSelectedWord wl_demo (rev (positions (wl_demo ! 0))) = (word x, Some x) \<and>
        timeouts (handleCellMouseUp (s_miss\<lparr>selected := positions (wl_demo ! 0)\<rparr>)) =
          timeouts s_miss @ [PlayerClaim (word x) x] \<and>
        timeouts (handleCellMouseUp (s_miss\<lparr>selected := rev (positions (wl_demo ! 0))\<rparr>)) =
          timeouts s_miss @ [PlayerClaim (word x) x]"
    by blast
  with h g e1 e2 show ?thesis by blast
qed

text \<open>
  C8. A pointer release whose selection has fewer than two cells, or matches no unclaimed
  placement, clears the selection and changes nothing else: the state after the release
  is the state before it with an empty selection, so the claim statuses of the word
  list, the found-words log, both scores and the pending timeouts are as before.
\<close>

theorem handleCellMouseUp_no_match:
  assumes "length (selected s) < 2 \<or> \<not> (\<exists>wd\<in>set (wordList s). matchesSel wd (selected s))"
  shows "handleCellMouseUp s = s\<lparr>selected := []\<rparr> \<and>
         step s MouseUp = s\<lparr>selected := []\<rparr> \<and>
         map foundBy (wordList (step s MouseUp)) = map foundBy (wordList s) \<and>
         foundWords (step s MouseUp) = foundWords s \<and>
         playerScore (step s MouseUp) = playerScore s \<and>
         aiScore (step s MouseUp) = aiScore s \<and>
         timeouts (step s MouseUp) = timeouts s"
proof -
  have "handleCellMouseUp s = s\<lparr>selected := []\<rparr>"
  proof (cases "length (selected s) < 2")
    case True
    then show ?thesis by (simp add: handleCellMouseUp_def)
  next
    case False
    with assms have "find (\<lambda>wd. matchesSel wd (selected s)) (wordList s) = None"
      by (simp add: find_None_iff)
    then show ?thesis
      by (simp add: handleCellMouseUp_def getSelectedWord_find)
  qed
  then show ?thesis by simp
qed

theorem handleCellMouseUp_no_match_witness:
  "length (selected s_miss) = 2 \<and>
   \<not> list_ex (\<lambda>wd. matchesSel wd (selected s_miss)) (wordList s_miss) \<and>
   handleCellMouseUp s_miss = s_miss\<lparr>selected := []\<rparr> \<and>
   step s_miss MouseUp = s_miss\<lparr>selected := []\<rparr> \<and>
   foundWords (step s_miss MouseUp) = foundWords s_miss"
proof -
  have h: "\<not> list_ex (\<lambda>wd. matchesSel wd (selected s_miss)) (wordList s_miss)"
    by code_simp
  then have h': "length (selected s_miss) < 2 \<or>
      \<not> (\<exists>wd\<in>set (wordList s_miss). matchesSel wd (selected s_miss))"
    by (simp add: list_ex_iff)
  have l: "length (selected s_miss) = 2" by code_simp
  from handleCellMouseUp_no_match [OF h'] h l show ?thesis by simp
qed

section \<open>The selection in progress\<close>

lemma lineFrom_hd: "lineFrom a sel \<Longrightarrow> hd sel = a"
proof -
  assume l: "lineFrom a sel"
  then obtain d where ne: "sel \<noteq> []"
    and sel: "sel = map (\<lambda>i. (fst a + fst d * int i, snd a + snd d * int i)) [0..<length sel]"
    by (auto simp: lineFrom_def)
  from ne have "0 < length sel" by simp
  then have "sel ! 0 = (fst a + fst d * int 0, snd a + snd d * int 0)"
    by (subst sel) (simp del: upt_Suc)
  with ne show ?thesis by (simp add: hd_conv_nth)
qed

lemma lineFrom_single: "lineFrom a [a]"
  unfolding lineFrom_def
  by (rule conjI, simp, rule bexI [of _ "(0, 1)"]) (simp_all add: DIRECTIONS_def)

lemma sgn_pair_in_DIRECTIONS:
  "(x::int) \<noteq> 0 \<or> (y::int) \<noteq> 0 \<Longrightarrow> (sgn x, sgn y) \<in> set DIRECTIONS"
  by (auto simp: DIRECTIONS_def sgn_if)

lemma lineFrom_latticeLine: "lineFrom a (latticeLine a b)"
proof (cases "fst b - fst a = 0 \<and> snd b - snd a = 0")
  case True
  then have "latticeLine a b = [a]" by (simp add: latticeLine_def)
  then show ?thesis by (simp add: lineFrom_single)
next
  case False
  then have "(sgn (fst b - fst a), sgn (snd b - snd a)) \<in> set DIRECTIONS"
    by (intro sgn_pair_in_DIRECTIONS) auto
  moreover have "latticeLine a b =
      map (\<lambda>i. (fst a + fst (sgn (fst b - fst a), sgn (snd b - snd a)) * int i,
                snd a + snd (sgn (fst b - fst a), sgn (snd b - snd a)) * int i))
        [0..<length (latticeLine a b)]"
    by (simp add: latticeLine_def del: upt_Suc)
  moreover have "latticeLine a b \<noteq> []" by (simp add: latticeLine_def)
  ultimately show ?thesis unfolding lineFrom_def by blast
qed

lemma selected_aiTick: "selected (aiTick s u1 u2 u3) = selected s"
  by (simp add: aiTick_def Let_def)

lemma selected_gameEndEffect: "selected (gameEndEffect s) = selected s"
  by (simp add: gameEndEffect_def)

lemma selected_startGame: "selected (startGame s d rnd) = selected s \<or> selected (startGame s d rnd) = []"
  by (simp add: startGame_def Let_def split: sum.split prod.split)

lemma selected_MouseUp: "selected (handleCellMouseUp s) = selected s \<or> selected (handleCellMouseUp s) = []"
  by (simp add: handleCellMouseUp_def split: prod.split option.split)

lemma selected_runTimeout: "selected (runTimeout t s) = selected s \<or> selected (runTimeout t s) = []"
  by (cases t) simp_all

lemma selected_Fire: "selected (step s (Fire k)) = selected s \<or> selected (step s (Fire k)) = []"
proof (cases "k < length (timeouts s)")
  case True
  let ?s0 = "s\<lparr>timeouts := take k (timeouts s) @ drop (Suc k) (timeouts s)\<rparr>"
  from selected_runTimeout [of "timeouts s ! k" ?s0]
  show ?thesis using True
    by (auto simp: Let_def selected_gameEndEffect split: timeout.split)
next
  case False
  then show ?thesis by simp
qed

lemma selected_MouseEnter:
  "selected (handleCellMouseEnter s r c) =
     (if gameState s = Playing \<and> selected s \<noteq> [] \<and> straight (hd (selected s)) (r, c)
      then latticeLine (hd (selected s)) (r, c) else selected s)"
  by (simp add: handleCellMouseEnter_def getLine_eq)

lemma selectionOK_step: "selectionOK (selected s) \<Longrightarrow> selectionOK (selected (step s e))"
proof (cases e)
  case (StartGame rnd)
  assume "selectionOK (selected s)"
  with selected_startGame [of s "difficulty s" rnd] show ?thesis
    by (auto simp: StartGame selected_gameEndEffect selectionOK_def)
next
  case (MouseDown r c)
  assume "selectionOK (selected s)"
  then show ?thesis
    by (simp add: MouseDown handleCellMouseDown_def selectionOK_def lineFrom_single)
next
  case (MouseEnter r c)
  assume "selectionOK (selected s)"
  then show ?thesis
    by (simp add: MouseEnter selected_MouseEnter selectionOK_def latticeLine_hd lineFrom_latticeLine)
next
  case MouseUp
  assume "selectionOK (selected s)"
  with selected_MouseUp [of s] show ?thesis
    by (auto simp: MouseUp selectionOK_def)
next
  case (Fire k)
  assume "selectionOK (selected s)"
  with selected_Fire [of s k] show ?thesis
    by (auto simp: Fire selectionOK_def)
qed (simp_all add: selectionOK_def selected_aiTick)

lemma reachable_selectionOK: "reachable s \<Longrightarrow> selectionOK (selected s)"
  by (induction rule: reachable.induct) (simp_all add: selectionOK_step, simp add: initial_def selectionOK_def)

lemma gameState_pointer: "pointerEvent e \<Longrightarrow> gameState (step s e) = gameState s"
  by (cases e) (simp_all add: pointerEvent_def handleCellMouseDown_def handleCellMouseEnter_def
      split: option.split)

lemma anchor_step:
  assumes "pointerEvent e" "gameState s = Playing"
    and "case a of None \<Rightarrow> selected s = [] | Some p \<Rightarrow> lineFrom p (selected s)"
  shows "case anchorAfter a [e] of None \<Rightarrow> selected (step s e) = []
         | Some p \<Rightarrow> lineFrom p (selected (step s e))"
proof (cases e)
  case (MouseDown r c)
  with assms show ?thesis
    by (simp add: anchorAfter_def handleCellMouseDown_def lineFrom_single)
next
  case (MouseEnter r c)
  show ?thesis
  proof (cases a)
    case None
    with assms MouseEnter show ?thesis
      by (simp add: anchorAfter_def selected_MouseEnter)
  next
    case (Some p)
    with assms have l: "lineFrom p (selected s)" by simp
    then have "hd (selected s) = p" by (rule lineFrom_hd)
    with l Some MouseEnter show ?thesis
      by (auto simp: anchorAfter_def selected_MouseEnter lineFrom_latticeLine)
  qed
qed (use assms in \<open>simp_all add: pointerEvent_def\<close>)

lemma anchor_run:
  assumes "list_all pointerEvent es" "gameState s = Playing"
    and "case a of None \<Rightarrow> selected s = [] | Some p \<Rightarrow> lineFrom p (selected s)"
  shows "gameState (foldl step s es) = Playing \<and>
         (case anchorAfter a es of None \<Rightarrow> selected (foldl step s es) = []
          | Some p \<Rightarrow> lineFrom p (selected (foldl step s es)))"
  using assms
proof (induction es rule: rev_induct)
  case Nil
  then show ?case by (auto simp: anchorAfter_def split: option.splits)
next
  case (snoc e es)
  then have IH: "gameState (foldl step s es) = Playing"
    "case anchorAfter a es of None \<Rightarrow> selected (foldl step s es) = []
          | Some p \<Rightarrow> lineFrom p (selected (foldl step s es))"
    and pe: "pointerEvent e"
    by simp_all
  have "anchorAfter a (es @ [e]) = anchorAfter (anchorAfter a es) [e]"
    by (simp add: anchorAfter_def)
  with anchor_step [OF pe IH] gameState_pointer [OF pe, of "foldl step s es"] IH(1)
  show ?case by (auto split: option.splits)
qed

lemma step_not_playing: "pointerEvent e \<Longrightarrow> gameState s \<noteq> Playing \<Longrightarrow> step s e = s"
  by (cases e) (simp_all add: pointerEvent_def handleCellMouseDown_def handleCellMouseEnter_def)

lemma run_not_playing:
  "list_all pointerEvent es \<Longrightarrow> gameState s \<noteq> Playing \<Longrightarrow> foldl step s es = s"
  by (induction es) (simp_all add: step_not_playing)

text \<open>
  C10. In every reachable state the selection is empty or a straight line from its first
  cell (one cell, or several at a constant unit step). While the state is playing, any
  sequence of pointer-down and pointer-enter events leaves a selection that is a straight
  line starting at the anchor, the cell of the last pointer-down (or the first cell of the
  selection before the sequence when it has no pointer-down), and an empty selection when
  there is no anchor; outside the playing state these events do not touch the selection.
\<close>

theorem selection_straight_anchored:
  "(reachable s \<longrightarrow> selectionOK (selected s)) \<and>
   (selectionOK (selected s) \<and> gameState s = Playing \<and> list_all pointerEvent es \<longrightarrow>
      (case anchorAfter (anchorOf (selected s)) es of
         None \<Rightarrow> selected (foldl step s es) = []
       | Some a \<Rightarrow> lineFrom a (selected (foldl step s es)) \<and>
                  hd (selected (foldl step s es)) = a)) \<and>
   (gameState s \<noteq> Playing \<and> list_all pointerEvent es \<longrightarrow>
      selected (foldl step s es) = selected s)"
proof (intro conjI impI)
  assume "reachable s"
  then show "selectionOK (selected s)" by (rule reachable_selectionOK)
next
  assume a: "selectionOK (selected s) \<and> gameState s = Playing \<and> list_all pointerEvent es"
  then have "case anchorOf (selected s) of None \<Rightarrow> selected s = []
             | Some p \<Rightarrow> lineFrom p (selected s)"
    by (auto simp: selectionOK_def anchorOf_def)
  with a have "case anchorAfter (anchorOf (selected s)) es of
                 None \<Rightarrow> selected (foldl step s es) = []
               | Some p \<Rightarrow> lineFrom p (selected (foldl step s es))"
    using anchor_run [of es s "anchorOf (selected s)"] by blast
  then show "case anchorAfter (anchorOf (selected s)) es of
         None \<Rightarrow> selected (foldl step s es) = []
       | Some a \<Rightarrow> lineFrom a (selected (foldl step s es)) \<and>
                  hd (selected (foldl step s es)) = a"
    by (auto split: option.splits dest: lineFrom_hd)
next
  assume "gameState s \<noteq> Playing \<and> list_all pointerEvent es"
  then show "selected (foldl step s es) = selected s"
    by (simp add: run_not_playing)
qed

theorem selection_straight_anchored_witness:
  "reachable (foldl step initial trace_drag) \<and>
   gameState (foldl step initial trace_drag) = Playing \<and>
   selected (foldl step initial trace_drag) = [(0, 0), (0, 1)] \<and>
   selectionOK (selected (foldl step initial trace_drag)) \<and>
   list_all pointerEvent trace_moves \<and>
   anchorAfter (anchorOf (selected (foldl step initial trace_drag))) trace_moves = Some (2, 2) \<and>
   selected (foldl step (foldl step initial trace_drag) trace_moves) = [(2, 2), (1, 1), (0, 0)] \<and>
   lineFrom (2, 2) (selected (foldl step (foldl step initial trace_drag) trace_moves)) \<and>
   gameState initial \<noteq> Playing \<and>
   selected (foldl step initial trace_moves) = selected initial"
proof -
  let ?s = "foldl step initial trace_drag"
  have run: "runnable initial trace_drag" by code_simp
  have ok: "list_all drawsOK trace_drag" by (simp add: trace_drag_def rnd_ok_rnd0)
  from reachable_run [OF reachable_initial run ok] have r: "reachable ?s" .
  have g: "gameState ?s = Playing" by code_simp
  have s0: "selected ?s = [(0, 0), (0, 1)]" by code_simp
  have p: "list_all pointerEvent trace_moves" by (simp add: trace_moves_def pointerEvent_def)
  have an: "anchorAfter (anchorOf (selected ?s)) trace_moves = Some (2, 2)"
    by (simp add: s0 anchorAfter_def trace_moves_def)
  have sel: "selected (foldl step ?s trace_moves) = [(2, 2), (1, 1), (0, 0)]"
    by code_simp
  have gi: "gameState initial \<noteq> Playing" by (simp add: initial_def)
  note t = selection_straight_anchored [of ?s trace_moves]
  from t r have ok1: "selectionOK (selected ?s)" by blast
  from t ok1 g p an have l: "lineFrom (2, 2) (selected (foldl step ?s trace_moves))"
    by simp
  from selection_straight_anchored [of initial trace_moves] gi p
  have i2: "selected (foldl step initial trace_moves) = selected initial"
    by blast
  from r g s0 ok1 p an sel l gi i2 show ?thesis by blast
qed

section \<open>The generator\<close>

lemma inGrid_nat:
  "inGrid sz p \<longleftrightarrow> 0 \<le> fst p \<and> 0 \<le> snd p \<and> nat (fst p) < sz \<and> nat (snd p) < sz"
  by (auto simp: inGrid_def)

lemma wfGrid_emptyGrid: "wfGrid sz (emptyGrid sz)"
  by (simp add: wfGrid_def emptyGrid_def)

lemma cell_emptyGrid: "inGrid sz p \<Longrightarrow> cell (emptyGrid sz) p = ''''"
  by (simp add: cell_def emptyGrid_def inGrid_nat)

lemma wfGrid_row: "wfGrid sz g \<Longrightarrow> i < sz \<Longrightarrow> length (g ! i) = sz"
  by (simp add: wfGrid_def)

lemma cellAt_inGrid:
  assumes "wfGrid sz g" "inGrid sz (r, c)"
  shows "cellAt g r c = Inr (Some (cell g (r, c)))"
proof -
  from assms(2) have r: "nat r < sz" "0 \<le> r" "r < int sz" and c: "nat c < sz" "0 \<le> c" "c < int sz"
    by (auto simp: inGrid_def)
  from assms(1) r have "length (g ! nat r) = sz" by (simp add: wfGrid_row)
  moreover from assms(1) have "length g = sz" by (simp add: wfGrid_def)
  ultimately show ?thesis using r c by (simp add: cellAt_def cell_def)
qed

lemma setCell_inGrid:
  assumes "wfGrid sz g" "inGrid sz (r, c)"
  shows "\<exists>g'. setCell g r c v = Inr g' \<and> wfGrid sz g' \<and>
           (\<forall>q. inGrid sz q \<longrightarrow> cell g' q = (if q = (r, c) then v else cell g q))"
proof -
  let ?g' = "g[nat r := (g ! nat r)[nat c := v]]"
  from assms have r: "nat r < sz" "r < int sz" and c: "nat c < sz" "c < int sz"
    and r0: "0 \<le> r" and c0: "0 \<le> c"
    by (auto simp: inGrid_def)
  from assms(1) r have lr: "length (g ! nat r) = sz" by (simp add: wfGrid_row)
  from assms(1) have lg: "length g = sz" by (simp add: wfGrid_def)
  have 1: "setCell g r c v = Inr ?g'"
    using r c r0 c0 lr lg by (simp add: setCell_def)
  have 2: "wfGrid sz ?g'"
    using assms(1) lr unfolding wfGrid_def
    by (auto dest!: set_update_subset_insert [THEN subsetD])
  have 3: "cell ?g' q = (if q = (r, c) then v else cell g q)" if "inGrid sz q" for q
  proof -
    obtain r' c' where q: "q = (r', c')" by (cases q)
    from that q have r': "nat r' < sz" "0 \<le> r'" and c': "nat c' < sz" "0 \<le> c'"
      by (auto simp: inGrid_def)
    show ?thesis
    proof (cases "r' = r")
      case True
      then show ?thesis
        using r c r0 c0 c' lr lg q by (auto simp: cell_def nth_list_update)
    next
      case False
      with r0 r' have "nat r' \<noteq> nat r" by simp
      then show ?thesis
        using False q by (simp add: cell_def)
    qed
  qed
  from 1 2 3 show ?thesis by blast
qed

lemma scanLine_eq:
  assumes "wfGrid sz g"
  shows "scanLine sz g w row col dir i ps =
           Inr (if list_all (fits sz g w row col dir) [i..<length w]
                then Some (ps @ map (lineCell row col dir) [i..<length w]) else None)"
proof (induction "length w - i" arbitrary: i ps)
  case 0
  then show ?case by (subst scanLine.simps) simp
next
  case (Suc k)
  then have i: "i < length w" and k: "k = length w - Suc i" by simp_all
  have upt: "[i..<length w] = i # [Suc i..<length w]"
    using i by (simp add: upt_conv_Cons)
  let ?r = "row + fst dir * int i" and ?c = "col + snd dir * int i"
  show ?case
  proof (cases "inGrid sz (?r, ?c)")
    case False
    then have "?r < 0 \<or> int sz \<le> ?r \<or> ?c < 0 \<or> int sz \<le> ?c"
      by (auto simp: inGrid_def)
    moreover from False have "\<not> fits sz g w row col dir i"
      by (simp add: fits_def lineCell_def)
    ultimately show ?thesis
      using i by (subst scanLine.simps) (simp add: upt Let_def)
  next
    case True
    then have guard: "\<not> (?r < 0 \<or> int sz \<le> ?r \<or> ?c < 0 \<or> int sz \<le> ?c)"
      by (auto simp: inGrid_def)
    have rd: "cellAt g ?r ?c = Inr (Some (cell g (?r, ?c)))"
      using assms True by (rule cellAt_inGrid)
    have f: "fits sz g w row col dir i \<longleftrightarrow>
               (cell g (?r, ?c) = '''' \<or> cell g (?r, ?c) = [w ! i])"
      using True by (simp add: fits_def lineCell_def)
    show ?thesis
    proof (cases "fits sz g w row col dir i")
      case False
      with f show ?thesis
        using i guard rd by (subst scanLine.simps) (simp add: upt Let_def)
    next
      case fit: True
      have "scanLine sz g w row col dir i ps =
              scanLine sz g w row col dir (Suc i) (ps @ [(?r, ?c)])"
        using i guard rd fit f by (subst scanLine.simps) (auto simp: Let_def)
      also have "\<dots> = Inr (if list_all (fits sz g w row col dir) [Suc i..<length w]
                then Some ((ps @ [(?r, ?c)]) @ map (lineCell row col dir) [Suc i..<length w])
                else None)"
        by (rule Suc.hyps(1) [OF k])
      finally show ?thesis
        using fit by (simp add: upt lineCell_def)
    qed
  qed
qed

lemma writeWord_ok:
  assumes "wfGrid sz g" "length ps = length w" "\<forall>j<length w. inGrid sz (ps ! j)" "distinct ps"
  shows "\<exists>g'. writeWord g w ps i = Inr g' \<and> wfGrid sz g' \<and>
           (\<forall>q. inGrid sz q \<and> q \<notin> set (drop i ps) \<longrightarrow> cell g' q = cell g q) \<and>
           (\<forall>j. i \<le> j \<and> j < length w \<longrightarrow> cell g' (ps ! j) = [w ! j])"
  using assms(1)
proof (induction "length w - i" arbitrary: i g)
  case 0
  then show ?case by (subst writeWord.simps) auto
next
  case (Suc k)
  then have i: "i < length w" and k: "k = length w - Suc i" by simp_all
  from i assms(2) have ips: "i < length ps" by simp
  from i assms(3) have "inGrid sz (fst (ps ! i), snd (ps ! i))" by simp
  from setCell_inGrid [OF Suc.prems this, of "[w ! i]"]
  obtain g1 where g1: "setCell g (fst (ps ! i)) (snd (ps ! i)) [w ! i] = Inr g1"
    and wf1: "wfGrid sz g1"
    and c1: "\<And>q. inGrid sz q \<Longrightarrow> cell g1 q = (if q = ps ! i then [w ! i] else cell g q)"
    by auto
  from Suc.hyps(1) [OF k wf1]
  obtain g' where g': "writeWord g1 w ps (Suc i) = Inr g'" and wf': "wfGrid sz g'"
    and a': "\<And>q. inGrid sz q \<Longrightarrow> q \<notin> set (drop (Suc i) ps) \<Longrightarrow> cell g' q = cell g1 q"
    and b': "\<And>j. Suc i \<le> j \<Longrightarrow> j < length w \<Longrightarrow> cell g' (ps ! j) = [w ! j]"
    by blast
  have dr: "drop i ps = ps ! i # drop (Suc i) ps"
    using ips by (simp add: Cons_nth_drop_Suc)
  from assms(4) have "distinct (drop i ps)" by simp
  then have notin: "ps ! i \<notin> set (drop (Suc i) ps)" by (simp add: dr)
  have 1: "writeWord g w ps i = Inr g'"
    using i ips g1 g' by (subst writeWord.simps) simp
  have 2: "cell g' q = cell g q" if "inGrid sz q" "q \<notin> set (drop i ps)" for q
    using that a' [of q] c1 [of q] by (simp add: dr)
  have 3: "cell g' (ps ! j) = [w ! j]" if "i \<le> j" "j < length w" for j
  proof (cases "j = i")
    case True
    from i assms(3) have "inGrid sz (ps ! i)" by simp
    with a' [OF this notin] c1 [of "ps ! i"] True show ?thesis by simp
  next
    case False
    with that b' [of j] show ?thesis by simp
  qed
  from 1 wf' 2 3 show ?case by blast
qed

lemma lineCell_inj:
  assumes "dir \<in> set DIRECTIONS"
  shows "inj (lineCell row col dir)"
proof (rule injI)
  fix x y assume "lineCell row col dir x = lineCell row col dir y"
  then have "fst dir * int x = fst dir * int y" "snd dir * int x = snd dir * int y"
    by (simp_all add: lineCell_def)
  moreover from assms have "fst dir \<noteq> 0 \<or> snd dir \<noteq> 0"
    by (auto simp: DIRECTIONS_def)
  ultimately show "x = y" by auto
qed

lemma distinct_lineCells:
  "dir \<in> set DIRECTIONS \<Longrightarrow> distinct (map (lineCell row col dir) [0..<n])"
  by (simp add: distinct_map lineCell_inj [THEN inj_on_subset])

lemma randomInt_range:
  assumes "0 \<le> u" "u < 1" "a \<le> b"
  shows "a \<le> randomInt u a b \<and> randomInt u a b \<le> b"
proof -
  define m where "m = b - a + 1"
  from assms have m: "0 < m" by (simp add: m_def)
  then have rm: "0 < real_of_int m" by simp
  from assms rm have lo: "0 \<le> u * real_of_int m" by simp
  from assms(2) rm have hi: "u * real_of_int m < real_of_int m"
    by (simp add: mult_less_cancel_right2)
  from lo have "0 \<le> \<lfloor>u * real_of_int m\<rfloor>" by simp
  moreover from hi have "\<lfloor>u * real_of_int m\<rfloor> < m" by (simp only: floor_less_iff)
  ultimately show ?thesis
    unfolding randomInt_def m_def [symmetric] by (simp add: m_def)
qed

lemma drawDir_ok:
  assumes "0 \<le> u" "u < 1"
  shows "\<exists>d\<in>set DIRECTIONS. drawDir u = Inr d"
proof -
  have len: "length DIRECTIONS = 8" by (simp add: DIRECTIONS_def)
  from randomInt_range [OF assms, of 0 7]
  have k: "0 \<le> randomInt u 0 7" "randomInt u 0 7 < 8" by simp_all
  then have "nat (randomInt u 0 7) < length DIRECTIONS" by (simp add: len)
  then have "DIRECTIONS ! nat (randomInt u 0 7) \<in> set DIRECTIONS" by (rule nth_mem)
  with k show ?thesis by (simp add: drawDir_def Let_def len)
qed

lemma write_valid_line:
  assumes wf: "wfGrid sz g" and dir: "dir \<in> set DIRECTIONS"
    and fit: "list_all (fits sz g w row col dir) [0..<length w]"
  defines "ps \<equiv> map (lineCell row col dir) [0..<length w]"
  shows "\<exists>g'. writeWord g w ps 0 = Inr g' \<and> wfGrid sz g' \<and>
           (\<forall>q. inGrid sz q \<and> cell g q \<noteq> '''' \<longrightarrow> cell g' q = cell g q) \<and>
           (\<forall>q. inGrid sz q \<and> q \<notin> set ps \<longrightarrow> cell g' q = cell g q) \<and>
           (\<forall>j<length w. inGrid sz (ps ! j) \<and> cell g' (ps ! j) = [w ! j])"
proof -
  have len: "length ps = length w" by (simp add: ps_def)
  have nth: "ps ! j = lineCell row col dir j" if "j < length w" for j
    using that by (simp add: ps_def)
  from fit have f: "fits sz g w row col dir j" if "j < length w" for j
    using that by (simp add: list_all_iff)
  have ing: "\<forall>j<length w. inGrid sz (ps ! j)"
    using f nth by (simp add: fits_def)
  have dist: "distinct ps"
    unfolding ps_def using dir by (rule distinct_lineCells)
  from writeWord_ok [OF wf len ing dist, of 0]
  obtain g' where g': "writeWord g w ps 0 = Inr g'" and wf': "wfGrid sz g'"
    and a: "\<And>q. inGrid sz q \<Longrightarrow> q \<notin> set ps \<Longrightarrow> cell g' q = cell g q"
    and b: "\<And>j. j < length w \<Longrightarrow> cell g' (ps ! j) = [w ! j]"
    by auto
  have keep: "cell g' q = cell g q" if q: "inGrid sz q" "cell g q \<noteq> ''''" for q
  proof (cases "q \<in> set ps")
    case False
    with q a show ?thesis by simp
  next
    case True
    then obtain j where j: "j < length w" "q = ps ! j"
      by (auto simp: in_set_conv_nth len)
    with f [of j] q nth [of j] have "cell g q = [w ! j]"
      by (simp add: fits_def)
    with b [of j] j show ?thesis by simp
  qed
  from g' wf' keep a b ing show ?thesis by blast
qed

lemma drawDir_attemptDir:
  assumes "0 \<le> rnd n" "rnd n < 1"
  shows "drawDir (rnd n) = Inr (attemptDir rnd n) \<and> attemptDir rnd n \<in> set DIRECTIONS"
proof -
  have len: "length DIRECTIONS = 8" by (simp add: DIRECTIONS_def)
  from randomInt_range [OF assms, of 0 7]
  have k: "0 \<le> randomInt (rnd n) 0 7" "randomInt (rnd n) 0 7 < 8" by simp_all
  then have "nat (randomInt (rnd n) 0 7) < length DIRECTIONS" by (simp add: len)
  then have "DIRECTIONS ! nat (randomInt (rnd n) 0 7) \<in> set DIRECTIONS" by (rule nth_mem)
  with k show ?thesis by (simp add: drawDir_def Let_def len attemptDir_def)
qed

lemma attempt_invalid:
  assumes "wfGrid sz g" "0 \<le> rnd n" "rnd n < 1" "\<not> attemptValid sz g w rnd n"
  shows "placementAttempt sz w rnd (g, wd, n) = Inr ((g, wd, n + 3), False)"
  using assms(4) drawDir_attemptDir [of rnd n, OF assms(2,3)]
  by (simp add: placementAttempt_def Let_def scanLine_eq [OF assms(1)] attemptValid_def
      attemptRow_def attemptCol_def)

lemma attempt_valid:
  assumes wf: "wfGrid sz g" and u: "0 \<le> rnd n" "rnd n < 1"
    and v: "attemptValid sz g w rnd n"
  shows "\<exists>g'. placementAttempt sz w rnd (g, wd, n) =
           Inr ((g', wd @ [placement sz w rnd n], n + 3), True) \<and>
         wfGrid sz g' \<and>
         (\<forall>q. inGrid sz q \<and> cell g q \<noteq> '''' \<longrightarrow> cell g' q = cell g q) \<and>
         (\<forall>q. inGrid sz q \<and> q \<notin> set (attemptCells sz w rnd n) \<longrightarrow> cell g' q = cell g q) \<and>
         (\<forall>j<length w. inGrid sz (attemptCells sz w rnd n ! j) \<and>
            cell g' (attemptCells sz w rnd n ! j) = [w ! j])"
proof -
  let ?ps = "attemptCells sz w rnd n"
  from drawDir_attemptDir [of rnd n, OF u]
  have dd: "drawDir (rnd n) = Inr (attemptDir rnd n)" and dir: "attemptDir rnd n \<in> set DIRECTIONS"
    by simp_all
  from write_valid_line [OF wf dir v [unfolded attemptValid_def]]
  obtain g' where g': "writeWord g w ?ps 0 = Inr g'" and wf': "wfGrid sz g'"
    and keep: "\<forall>q. inGrid sz q \<and> cell g q \<noteq> '''' \<longrightarrow> cell g' q = cell g q"
    and other: "\<forall>q. inGrid sz q \<and> q \<notin> set ?ps \<longrightarrow> cell g' q = cell g q"
    and new: "\<forall>j<length w. inGrid sz (?ps ! j) \<and> cell g' (?ps ! j) = [w ! j]"
    unfolding attemptCells_def by blast
  have "placementAttempt sz w rnd (g, wd, n) =
           Inr ((g', wd @ [placement sz w rnd n], n + 3), True)"
    using dd v g'
    by (simp add: placementAttempt_def Let_def scanLine_eq [OF wf] attemptValid_def
        attemptRow_def attemptCol_def attemptCells_def placement_def)
  with wf' keep other new show ?thesis by blast
qed

lemma attempt_valid_inv:
  assumes inv: "genInv P sz g wd" and w: "\<forall>ch\<in>set w. P ch"
    and wf': "wfGrid sz g'"
    and keep: "\<forall>q. inGrid sz q \<and> cell g q \<noteq> '''' \<longrightarrow> cell g' q = cell g q"
    and other: "\<forall>q. inGrid sz q \<and> q \<notin> set (attemptCells sz w rnd n) \<longrightarrow> cell g' q = cell g q"
    and new: "\<forall>j<length w. inGrid sz (attemptCells sz w rnd n ! j) \<and>
            cell g' (attemptCells sz w rnd n ! j) = [w ! j]"
  shows "genInv P sz g' (wd @ [placement sz w rnd n])"
proof -
  let ?ps = "attemptCells sz w rnd n"
  from inv have cp: "cellsP P sz g" and po: "placedOK sz g wd"
    by (simp_all add: genInv_def)
  have len: "length ?ps = length w" by (simp add: attemptCells_def)
  have 2: "cellsP P sz g'"
    unfolding cellsP_def
  proof (intro allI impI)
    fix q assume q: "inGrid sz q"
    show "cell g' q = '''' \<or> (\<exists>ch. cell g' q = [ch] \<and> P ch)"
    proof (cases "q \<in> set ?ps")
      case True
      then obtain j where j: "j < length w" "q = ?ps ! j"
        by (auto simp: in_set_conv_nth len)
      with new w show ?thesis by auto
    next
      case False
      with other q have "cell g' q = cell g q" by blast
      with cp q show ?thesis unfolding cellsP_def by metis
    qed
  qed
  have 3: "placedOK sz g' (wd @ [placement sz w rnd n])"
    unfolding placedOK_def
  proof
    fix p assume "p \<in> set (wd @ [placement sz w rnd n])"
    then consider "p \<in> set wd" | "p = placement sz w rnd n"
      by auto
    then show "foundBy p = None \<and> length (positions p) = length (word p) \<and>
        (\<forall>i<length (word p). inGrid sz (positions p ! i) \<and>
           cell g' (positions p ! i) = [word p ! i])"
    proof cases
      case 1
      with po have a: "foundBy p = None" "length (positions p) = length (word p)"
        and b: "\<And>i. i < length (word p) \<Longrightarrow> inGrid sz (positions p ! i) \<and>
           cell g (positions p ! i) = [word p ! i]"
        by (simp_all add: placedOK_def)
      from keep have keep': "\<And>q. inGrid sz q \<Longrightarrow> cell g q \<noteq> '''' \<Longrightarrow> cell g' q = cell g q"
        by blast
      have "cell g' (positions p ! i) = [word p ! i]" if "i < length (word p)" for i
        using b [OF that] keep' [of "positions p ! i"] by simp
      with a b show ?thesis by simp
    next
      case 2
      with new len show ?thesis by (simp add: placement_def)
    qed
  qed
  from wf' 2 3 show ?thesis by (simp add: genInv_def)
qed

lemma placeLoop_placed: "placeLoop sz w rnd True t st = Inr st"
  by (subst placeLoop.simps) simp

lemma find_map_comp: "find Q (map f xs) = map_option f (find (\<lambda>x. Q (f x)) xs)"
  by (induction xs) simp_all

lemma find_upt_Suc:
  "find Q [0..<Suc k] = (if Q 0 then Some 0 else map_option Suc (find (\<lambda>j. Q (Suc j)) [0..<k]))"
proof -
  have "[0..<Suc k] = 0 # map Suc [0..<k]"
    by (simp add: upt_conv_Cons map_Suc_upt del: upt_Suc)
  then show ?thesis by (simp add: find_map_comp del: upt_Suc)
qed

lemma placeLoop_first_valid:
  assumes wf: "wfGrid sz g" and rnd: "rnd_ok rnd"
  shows "case find (\<lambda>j. attemptValid sz g w rnd (n + 3 * j)) [0..<100 - t] of
           None \<Rightarrow> placeLoop sz w rnd False t (g, wd, n) = Inr (g, wd, n + 3 * (100 - t))
         | Some j \<Rightarrow>
             (\<exists>g'. placeLoop sz w rnd False t (g, wd, n) =
                     Inr (g', wd @ [placement sz w rnd (n + 3 * j)], n + 3 * (j + 1)) \<and>
                   placementAttempt sz w rnd (g, wd, n + 3 * j) =
                     Inr ((g', wd @ [placement sz w rnd (n + 3 * j)], n + 3 * j + 3), True))"
proof (induction "100 - t" arbitrary: t n)
  case 0
  then show ?case by (subst placeLoop.simps) simp
next
  case (Suc k)
  then have t: "t < 100" and k: "k = 100 - Suc t" and kt: "100 - t = Suc k" by simp_all
  from rnd have u: "0 \<le> rnd n" "rnd n < 1" by (simp_all add: rnd_ok_def)
  show ?case
  proof (cases "attemptValid sz g w rnd n")
    case True
    from attempt_valid [OF wf u True]
    obtain g' where a: "placementAttempt sz w rnd (g, wd, n) =
           Inr ((g', wd @ [placement sz w rnd n], n + 3), True)"
      by blast
    have "placeLoop sz w rnd False t (g, wd, n) = Inr (g', wd @ [placement sz w rnd n], n + 3)"
      using t a by (subst placeLoop.simps) (simp add: placeLoop_placed)
    with a True show ?thesis
      unfolding kt find_upt_Suc by simp
  next
    case False
    have a: "placementAttempt sz w rnd (g, wd, n) = Inr ((g, wd, n + 3), False)"
      using wf u False by (rule attempt_invalid)
    have step: "placeLoop sz w rnd False t (g, wd, n) =
                placeLoop sz w rnd False (Suc t) (g, wd, n + 3)"
      using t a by (subst placeLoop.simps) simp
    have shift: "n + 3 * Suc j = n + 3 + 3 * j" for j by simp
    from Suc.hyps(1) [OF k, of "n + 3"] False show ?thesis
      unfolding kt find_upt_Suc step shift k [symmetric]
      by (auto split: option.splits simp: algebra_simps)
  qed
qed

lemma placeLoop_inv:
  assumes inv: "genInv P sz g wd" and rnd: "rnd_ok rnd" and w: "\<forall>ch\<in>set w. P ch"
  shows "\<exists>g' new n'. placeLoop sz w rnd False 0 (g, wd, n) = Inr (g', wd @ new, n') \<and>
           genInv P sz g' (wd @ new) \<and> (new = [] \<or> (\<exists>x. new = [x] \<and> word x = w))"
proof -
  from inv have wf: "wfGrid sz g" by (simp add: genInv_def)
  show ?thesis
  proof (cases "find (\<lambda>j. attemptValid sz g w rnd (n + 3 * j)) [0..<100 - 0]")
    case None
    with placeLoop_first_valid [OF wf rnd, where w = w and n = n and t = 0 and wd = wd]
    have "placeLoop sz w rnd False 0 (g, wd, n) = Inr (g, wd @ [], n + 3 * (100 - 0))"
      by simp
    with inv show ?thesis by (intro exI [of _ g] exI [of _ "[]"] exI) simp
  next
    case (Some j)
    with placeLoop_first_valid [OF wf rnd, where w = w and n = n and t = 0 and wd = wd]
    obtain g' where l: "placeLoop sz w rnd False 0 (g, wd, n) =
                     Inr (g', wd @ [placement sz w rnd (n + 3 * j)], n + 3 * (j + 1))"
      and a: "placementAttempt sz w rnd (g, wd, n + 3 * j) =
                     Inr ((g', wd @ [placement sz w rnd (n + 3 * j)], n + 3 * j + 3), True)"
      by auto
    from Some have v: "attemptValid sz g w rnd (n + 3 * j)"
      by (auto simp: find_Some_iff)
    from rnd have u: "0 \<le> rnd (n + 3 * j)" "rnd (n + 3 * j) < 1" by (simp_all add: rnd_ok_def)
    from attempt_valid [OF wf u v, where wd = wd] a
    have "wfGrid sz g' \<and>
         (\<forall>q. inGrid sz q \<and> cell g q \<noteq> '''' \<longrightarrow> cell g' q = cell g q) \<and>
         (\<forall>q. inGrid sz q \<and> q \<notin> set (attemptCells sz w rnd (n + 3 * j)) \<longrightarrow>
              cell g' q = cell g q) \<and>
         (\<forall>j'<length w. inGrid sz (attemptCells sz w rnd (n + 3 * j) ! j') \<and>
            cell g' (attemptCells sz w rnd (n + 3 * j) ! j') = [w ! j'])"
      by auto
    then have "genInv P sz g' (wd @ [placement sz w rnd (n + 3 * j)])"
      by (intro attempt_valid_inv [OF inv w]) blast+
    with l show ?thesis
      by (intro exI [of _ g'] exI [of _ "[placement sz w rnd (n + 3 * j)]"] exI)
         (simp add: placement_def)
  qed
qed

lemma placeWords_inv:
  assumes "genInv P sz g wd" "rnd_ok rnd" "\<forall>w\<in>set ws. \<forall>ch\<in>set (toUpperCase w). P ch"
  shows "\<exists>g' new n'. placeWords sz ws rnd (g, wd, n) = Inr (g', wd @ new, n') \<and>
           genInv P sz g' (wd @ new) \<and> subseq (map word new) (map toUpperCase ws)"
  using assms
proof (induction ws arbitrary: g wd n)
  case Nil
  then show ?case by (intro exI [of _ g] exI [of _ "[]"] exI) simp
next
  case (Cons w ws)
  from Cons.prems have pw: "\<forall>ch\<in>set (toUpperCase w). P ch"
    and pws: "\<forall>w\<in>set ws. \<forall>ch\<in>set (toUpperCase w). P ch"
    by simp_all
  from placeLoop_inv [OF Cons.prems(1,2) pw, of n]
  obtain g1 new1 n1 where l: "placeLoop sz (toUpperCase w) rnd False 0 (g, wd, n) =
      Inr (g1, wd @ new1, n1)"
    and i1: "genInv P sz g1 (wd @ new1)"
    and n1: "new1 = [] \<or> (\<exists>x. new1 = [x] \<and> word x = toUpperCase w)"
    by blast
  from Cons.IH [OF i1 Cons.prems(2) pws, of n1]
  obtain g2 new2 n2 where r: "placeWords sz ws rnd (g1, wd @ new1, n1) =
      Inr (g2, (wd @ new1) @ new2, n2)"
    and i2: "genInv P sz g2 ((wd @ new1) @ new2)"
    and s2: "subseq (map word new2) (map toUpperCase ws)"
    by blast
  have "placeWords sz (w # ws) rnd (g, wd, n) = Inr (g2, wd @ (new1 @ new2), n2)"
    using l r by simp
  moreover from i2 have "genInv P sz g2 (wd @ (new1 @ new2))" by simp
  moreover from n1 s2 have "subseq (map word (new1 @ new2)) (map toUpperCase (w # ws))"
    by auto
  ultimately show ?case by blast
qed

lemma isAZ_fill:
  assumes "0 \<le> u" "u < 1"
  shows "isAZ (char_of (65 + randomInt u 0 25))"
proof -
  from randomInt_range [OF assms, of 0 25]
  have k: "0 \<le> randomInt u 0 25" "randomInt u 0 25 \<le> 25" by simp_all
  define k where "k = nat (randomInt u 0 25)"
  with k have kk: "randomInt u 0 25 = int k" "k \<le> 25" by simp_all
  have "char_of (65 + int k) = (char_of (65 + k) :: char)"
    by (metis of_nat_add of_nat_numeral char_of_nat)
  moreover have "of_char (char_of (65 + k) :: char) = (65 + k) mod 256"
    by simp
  ultimately show ?thesis using kk by (simp add: isAZ_def)
qed

lemma isAZ_toUpperChar: "isLetter ch \<Longrightarrow> isAZ (toUpperChar ch)"
  by (auto simp: isLetter_def isAZ_def toUpperChar_def)

lemma fillRow_ok:
  assumes rnd: "rnd_ok rnd" and r: "r < sz" and az: "\<forall>ch. isAZ ch \<longrightarrow> P ch"
    and wf: "wfGrid sz g" and cp: "cellsP P sz g"
  shows "\<exists>g' n'. fillRow sz rnd r c (g, n) = Inr (g', n') \<and> wfGrid sz g' \<and> cellsP P sz g' \<and>
           (\<forall>q. inGrid sz q \<and> cell g q \<noteq> '''' \<longrightarrow> cell g' q = cell g q) \<and>
           (\<forall>c'. c \<le> c' \<and> c' < sz \<longrightarrow> cell g' (int r, int c') \<noteq> '''')"
  using wf cp
proof (induction "sz - c" arbitrary: c g n)
  case 0
  then show ?case by (subst fillRow.simps) auto
next
  case (Suc k)
  then have c: "c < sz" and k: "k = sz - Suc c" by simp_all
  from r c have ing: "inGrid sz (int r, int c)" by (simp add: inGrid_def)
  have rd: "cellAt g (int r) (int c) = Inr (Some (cell g (int r, int c)))"
    using Suc.prems(1) ing by (rule cellAt_inGrid)
  show ?case
  proof (cases "cell g (int r, int c) = ''''")
    case True
    let ?v = "[char_of (65 + randomInt (rnd n) 0 25)]"
    from setCell_inGrid [OF Suc.prems(1) ing, of ?v]
    obtain g1 where g1: "setCell g (int r) (int c) ?v = Inr g1" and wf1: "wfGrid sz g1"
      and c1: "\<And>q. inGrid sz q \<Longrightarrow> cell g1 q = (if q = (int r, int c) then ?v else cell g q)"
      by blast
    from rnd have "isAZ (char_of (65 + randomInt (rnd n) 0 25))"
      by (intro isAZ_fill) (simp_all add: rnd_ok_def)
    with az have pv: "P (char_of (65 + randomInt (rnd n) 0 25))" by simp
    have cp1: "cellsP P sz g1"
      unfolding cellsP_def
    proof (intro allI impI)
      fix q assume q: "inGrid sz q"
      from Suc.prems(2) q have "cell g q = '''' \<or> (\<exists>ch. cell g q = [ch] \<and> P ch)"
        unfolding cellsP_def by blast
      with c1 [OF q] pv show "cell g1 q = '''' \<or> (\<exists>ch. cell g1 q = [ch] \<and> P ch)"
        by auto
    qed
    from Suc.hyps(1) [OF k wf1 cp1, of "Suc n"]
    obtain g' n' where f: "fillRow sz rnd r (Suc c) (g1, Suc n) = Inr (g', n')"
      and wf': "wfGrid sz g'" and cp': "cellsP P sz g'"
      and keep: "\<And>q. inGrid sz q \<Longrightarrow> cell g1 q \<noteq> '''' \<Longrightarrow> cell g' q = cell g1 q"
      and full: "\<And>c'. Suc c \<le> c' \<Longrightarrow> c' < sz \<Longrightarrow> cell g' (int r, int c') \<noteq> ''''"
      by blast
    have 1: "fillRow sz rnd r c (g, n) = Inr (g', n')"
      using c rd True g1 f by (subst fillRow.simps) simp
    have 2: "cell g' q = cell g q" if "inGrid sz q" "cell g q \<noteq> ''''" for q
    proof -
      from that True have "q \<noteq> (int r, int c)" by auto
      with c1 [OF that(1)] have "cell g1 q = cell g q" by simp
      with keep [OF that(1)] that(2) show ?thesis by simp
    qed
    have 3: "cell g' (int r, int c') \<noteq> ''''" if "c \<le> c'" "c' < sz" for c'
    proof (cases "c' = c")
      case True
      from c1 [OF ing] have "cell g1 (int r, int c) \<noteq> ''''" by simp
      with keep [OF ing] True show ?thesis by simp
    next
      case False
      with that full [of c'] show ?thesis by simp
    qed
    from 1 wf' cp' 2 3 show ?thesis by blast
  next
    case False
    from Suc.hyps(1) [OF k Suc.prems, of n]
    obtain g' n' where f: "fillRow sz rnd r (Suc c) (g, n) = Inr (g', n')"
      and wf': "wfGrid sz g'" and cp': "cellsP P sz g'"
      and keep: "\<And>q. inGrid sz q \<Longrightarrow> cell g q \<noteq> '''' \<Longrightarrow> cell g' q = cell g q"
      and full: "\<And>c'. Suc c \<le> c' \<Longrightarrow> c' < sz \<Longrightarrow> cell g' (int r, int c') \<noteq> ''''"
      by blast
    have 1: "fillRow sz rnd r c (g, n) = Inr (g', n')"
      using c rd False f by (subst fillRow.simps) simp
    have 3: "cell g' (int r, int c') \<noteq> ''''" if "c \<le> c'" "c' < sz" for c'
    proof (cases "c' = c")
      case True
      with keep [OF ing False] False show ?thesis by simp
    next
      case False
      with that full [of c'] show ?thesis by simp
    qed
    from 1 wf' cp' keep 3 show ?thesis by blast
  qed
qed

lemma fillGrid_ok:
  assumes rnd: "rnd_ok rnd" and az: "\<forall>ch. isAZ ch \<longrightarrow> P ch"
    and wf: "wfGrid sz g" and cp: "cellsP P sz g"
  shows "\<exists>g' n'. fillGrid sz rnd r (g, n) = Inr (g', n') \<and> wfGrid sz g' \<and> cellsP P sz g' \<and>
           (\<forall>q. inGrid sz q \<and> cell g q \<noteq> '''' \<longrightarrow> cell g' q = cell g q) \<and>
           (\<forall>r' c'. r \<le> r' \<and> r' < sz \<and> c' < sz \<longrightarrow> cell g' (int r', int c') \<noteq> '''')"
  using wf cp
proof (induction "sz - r" arbitrary: r g n)
  case 0
  then show ?case by (subst fillGrid.simps) auto
next
  case (Suc k)
  then have r: "r < sz" and k: "k = sz - Suc r" by simp_all
  from fillRow_ok [OF rnd r az Suc.prems, of 0 n]
  obtain g1 n1 where f1: "fillRow sz rnd r 0 (g, n) = Inr (g1, n1)"
    and wf1: "wfGrid sz g1" and cp1: "cellsP P sz g1"
    and keep1: "\<And>q. inGrid sz q \<Longrightarrow> cell g q \<noteq> '''' \<Longrightarrow> cell g1 q = cell g q"
    and full1: "\<And>c'. c' < sz \<Longrightarrow> cell g1 (int r, int c') \<noteq> ''''"
    by auto
  from Suc.hyps(1) [OF k wf1 cp1, of n1]
  obtain g' n' where f: "fillGrid sz rnd (Suc r) (g1, n1) = Inr (g', n')"
    and wf': "wfGrid sz g'" and cp': "cellsP P sz g'"
    and keep: "\<And>q. inGrid sz q \<Longrightarrow> cell g1 q \<noteq> '''' \<Longrightarrow> cell g' q = cell g1 q"
    and full: "\<And>r' c'. Suc r \<le> r' \<Longrightarrow> r' < sz \<Longrightarrow> c' < sz \<Longrightarrow> cell g' (int r', int c') \<noteq> ''''"
    by blast
  have 1: "fillGrid sz rnd r (g, n) = Inr (g', n')"
    using r f1 f by (subst fillGrid.simps) simp
  have 2: "cell g' q = cell g q" if "inGrid sz q" "cell g q \<noteq> ''''" for q
    using keep1 [OF that] keep [OF that(1)] that(2) by simp
  have 3: "cell g' (int r', int c') \<noteq> ''''" if "r \<le> r'" "r' < sz" "c' < sz" for r' c'
  proof (cases "r' = r")
    case True
    from r that have "inGrid sz (int r, int c')" by (simp add: inGrid_def)
    from keep [OF this] full1 [OF that(3)] True show ?thesis by simp
  next
    case False
    with that full [of r' c'] show ?thesis by simp
  qed
  from 1 wf' cp' 2 3 show ?case by blast
qed

lemma genInv_emptyGrid: "genInv P sz (emptyGrid sz) []"
  by (simp add: genInv_def wfGrid_emptyGrid cellsP_def cell_emptyGrid placedOK_def)

lemma generateGrid_ok:
  assumes rnd: "rnd_ok rnd" and az: "\<forall>ch. isAZ ch \<longrightarrow> P ch"
    and ws: "\<forall>w\<in>set ws. \<forall>ch\<in>set (toUpperCase w). P ch"
  shows "\<exists>g wd. generateGrid sz ws rnd = Inr (g, wd) \<and> genInv P sz g wd \<and>
           (\<forall>q. inGrid sz q \<longrightarrow> cell g q \<noteq> '''') \<and>
           subseq (map word wd) (map toUpperCase ws)"
proof -
  from placeWords_inv [OF genInv_emptyGrid rnd ws, of sz 0]
  obtain g1 wd n1 where p: "placeWords sz ws rnd (emptyGrid sz, [], 0) = Inr (g1, wd, n1)"
    and i1: "genInv P sz g1 wd" and sub: "subseq (map word wd) (map toUpperCase ws)"
    by auto
  from i1 have wf1: "wfGrid sz g1" and cp1: "cellsP P sz g1" and po1: "placedOK sz g1 wd"
    by (simp_all add: genInv_def)
  from fillGrid_ok [OF rnd az wf1 cp1, of 0 n1]
  obtain g n' where f: "fillGrid sz rnd 0 (g1, n1) = Inr (g, n')"
    and wf: "wfGrid sz g" and cp: "cellsP P sz g"
    and keep: "\<And>q. inGrid sz q \<Longrightarrow> cell g1 q \<noteq> '''' \<Longrightarrow> cell g q = cell g1 q"
    and full: "\<And>r' c'. r' < sz \<Longrightarrow> c' < sz \<Longrightarrow> cell g (int r', int c') \<noteq> ''''"
    by auto
  have 1: "generateGrid sz ws rnd = Inr (g, wd)"
    using p f by (simp add: generateGrid_def)
  have 2: "placedOK sz g wd"
    unfolding placedOK_def
  proof
    fix p assume "p \<in> set wd"
    with po1 have a: "foundBy p = None" "length (positions p) = length (word p)"
      and b: "\<And>i. i < length (word p) \<Longrightarrow> inGrid sz (positions p ! i) \<and>
           cell g1 (positions p ! i) = [word p ! i]"
      by (simp_all add: placedOK_def)
    have "cell g (positions p ! i) = [word p ! i]" if "i < length (word p)" for i
      using b [OF that] keep [of "positions p ! i"] by simp
    with a b show "foundBy p = None \<and> length (positions p) = length (word p) \<and>
        (\<forall>i<length (word p). inGrid sz (positions p ! i) \<and>
           cell g (positions p ! i) = [word p ! i])"
      by simp
  qed
  have 3: "cell g q \<noteq> ''''" if "inGrid sz q" for q
  proof -
    from that have "nat (fst q) < sz" "nat (snd q) < sz"
      and "q = (int (nat (fst q)), int (nat (snd q)))"
      by (simp_all add: inGrid_nat)
    with full [of "nat (fst q)" "nat (snd q)"] show ?thesis by simp
  qed
  from 1 wf cp 2 3 sub show ?thesis by (auto simp: genInv_def)
qed

lemma readAlong_word:
  assumes "wfGrid sz g"
  shows "length ps = length w \<Longrightarrow>
         \<forall>i<length w. inGrid sz (ps ! i) \<and> cell g (ps ! i) = [w ! i] \<Longrightarrow>
         readAlong g ps = Some w"
proof (induction ps arbitrary: w)
  case Nil
  then show ?case by simp
next
  case (Cons p ps)
  then obtain ch w' where w: "w = ch # w'" by (cases w) auto
  from Cons.prems(2) w have p: "inGrid sz p" "cell g p = [ch]" by auto
  from Cons.prems(2) w have rest: "\<forall>i<length w'. inGrid sz (ps ! i) \<and> cell g (ps ! i) = [w' ! i]"
    by auto
  from Cons.prems(1) w have "length ps = length w'" by simp
  from Cons.IH [OF this rest] have "readAlong g ps = Some w'" .
  moreover from cellAt_inGrid [OF assms, of "fst p" "snd p"] p
  have "cellAt g (fst p) (snd p) = Inr (Some [ch])" by simp
  ultimately show ?case by (simp add: w)
qed

text \<open>The loops of the generator compute the run over the word list.\<close>

lemma setCell_eq:
  assumes "wfGrid sz g" "inGrid sz (r, c)"
  shows "setCell g r c v = Inr (g[nat r := (g ! nat r)[nat c := v]]) \<and>
         wfGrid sz (g[nat r := (g ! nat r)[nat c := v]])"
proof -
  from assms have r: "nat r < sz" "r < int sz" and c: "nat c < sz" "c < int sz"
    and r0: "0 \<le> r" and c0: "0 \<le> c"
    by (auto simp: inGrid_def)
  from assms(1) r have lr: "length (g ! nat r) = sz" by (simp add: wfGrid_row)
  from assms(1) have lg: "length g = sz" by (simp add: wfGrid_def)
  have "setCell g r c v = Inr (g[nat r := (g ! nat r)[nat c := v]])"
    using r c r0 c0 lr lg by (simp add: setCell_def)
  with setCell_inGrid [OF assms, of v] show ?thesis by auto
qed

lemma writeWord_put:
  assumes "length ps = length w" "\<forall>j<length w. inGrid sz (ps ! j)"
  shows "wfGrid sz g \<Longrightarrow> i \<le> length w \<Longrightarrow>
         writeWord g w ps i = Inr (putWord g (drop i w) (drop i ps))"
proof (induction "length w - i" arbitrary: i g)
  case 0
  then show ?case using assms(1) by (subst writeWord.simps) simp
next
  case (Suc k)
  then have i: "i < length w" and k: "k = length w - Suc i" by simp_all
  from i assms(1) have ips: "i < length ps" by simp
  from i assms(2) have "inGrid sz (fst (ps ! i), snd (ps ! i))" by simp
  from setCell_eq [OF Suc.prems(1) this, of "[w ! i]"]
  have g1: "setCell g (fst (ps ! i)) (snd (ps ! i)) [w ! i] =
          Inr (g[nat (fst (ps ! i)) := (g ! nat (fst (ps ! i)))[nat (snd (ps ! i)) := [w ! i]]])"
    and wf1: "wfGrid sz (g[nat (fst (ps ! i)) := (g ! nat (fst (ps ! i)))[nat (snd (ps ! i)) := [w ! i]]])"
    by simp_all
  from i have si: "Suc i \<le> length w" by simp
  have dw: "drop i w = w ! i # drop (Suc i) w" using i by (simp add: Cons_nth_drop_Suc)
  have dp: "drop i ps = ps ! i # drop (Suc i) ps" using ips by (simp add: Cons_nth_drop_Suc)
  have "writeWord g w ps i =
        writeWord (g[nat (fst (ps ! i)) := (g ! nat (fst (ps ! i)))[nat (snd (ps ! i)) := [w ! i]]]) w ps (Suc i)"
    using i ips g1 by (subst writeWord.simps) simp
  also note Suc.hyps(1) [OF k wf1 si]
  finally show ?case by (simp add: dw dp)
qed

lemma attempt_valid_put:
  assumes wf: "wfGrid sz g" and u: "0 \<le> rnd n" "rnd n < 1"
    and v: "attemptValid sz g w rnd n"
  shows "placementAttempt sz w rnd (g, wd, n) =
           Inr ((putWord g w (attemptCells sz w rnd n), wd @ [placement sz w rnd n], n + 3), True)"
proof -
  let ?ps = "attemptCells sz w rnd n"
  from drawDir_attemptDir [of rnd n, OF u]
  have dd: "drawDir (rnd n) = Inr (attemptDir rnd n)" by simp
  have len: "length ?ps = length w" by (simp add: attemptCells_def)
  from v have ing: "\<forall>j<length w. inGrid sz (?ps ! j)"
    by (simp add: attemptValid_def attemptCells_def list_all_iff fits_def)
  from writeWord_put [OF len ing wf, of 0]
  have ww: "writeWord g w ?ps 0 = Inr (putWord g w ?ps)" by simp
  show ?thesis
    using dd v ww
    by (simp add: placementAttempt_def Let_def scanLine_eq [OF wf] attemptValid_def
        attemptRow_def attemptCol_def attemptCells_def placement_def)
qed

lemma placeLoop_spec:
  assumes wf: "wfGrid sz g" and rnd: "rnd_ok rnd"
  shows "placeLoop sz w rnd False 0 (g, wd, n) = Inr (specPlaceWord sz rnd w (g, wd, n)) \<and>
         wfGrid sz (fst (specPlaceWord sz rnd w (g, wd, n)))"
proof (cases "find (\<lambda>j. attemptValid sz g w rnd (n + 3 * j)) [0..<100]")
  case None
  with placeLoop_first_valid [OF wf rnd, where w = w and n = n and t = 0 and wd = wd] wf
  show ?thesis by (simp add: specPlaceWord_def)
next
  case (Some j)
  with placeLoop_first_valid [OF wf rnd, where w = w and n = n and t = 0 and wd = wd]
  obtain g' where l: "placeLoop sz w rnd False 0 (g, wd, n) =
                     Inr (g', wd @ [placement sz w rnd (n + 3 * j)], n + 3 * (j + 1))"
    and a: "placementAttempt sz w rnd (g, wd, n + 3 * j) =
                     Inr ((g', wd @ [placement sz w rnd (n + 3 * j)], n + 3 * j + 3), True)"
    by auto
  from Some have v: "attemptValid sz g w rnd (n + 3 * j)"
    by (auto simp: find_Some_iff)
  from rnd have u: "0 \<le> rnd (n + 3 * j)" "rnd (n + 3 * j) < 1" by (simp_all add: rnd_ok_def)
  from attempt_valid_put [OF wf u v, where wd = wd] a
  have g': "g' = putWord g w (attemptCells sz w rnd (n + 3 * j))" by simp
  from attempt_valid [OF wf u v, where wd = wd] a have "wfGrid sz g'" by auto
  with l g' Some show ?thesis by (simp add: specPlaceWord_def)
qed

lemma placeWords_spec:
  assumes rnd: "rnd_ok rnd"
  shows "wfGrid sz (fst st) \<Longrightarrow>
         placeWords sz ws rnd st = Inr (specPlaceWords sz rnd ws st) \<and>
         wfGrid sz (fst (specPlaceWords sz rnd ws st))"
proof (induction ws arbitrary: st)
  case Nil
  then show ?case by (simp add: specPlaceWords_def)
next
  case (Cons w ws)
  obtain g wd n where st: "st = (g, wd, n)" by (cases st)
  with Cons.prems have wf: "wfGrid sz g" by simp
  from placeLoop_spec [OF wf rnd, of "toUpperCase w" wd n]
  have l: "placeLoop sz (toUpperCase w) rnd False 0 st =
             Inr (specPlaceWord sz rnd (toUpperCase w) st)"
    and wf1: "wfGrid sz (fst (specPlaceWord sz rnd (toUpperCase w) st))"
    by (simp_all add: st)
  from Cons.IH [OF wf1] l show ?case by (simp add: specPlaceWords_def)
qed

section \<open>Properties of generateGrid\<close>

lemma rnd_ok_zero: "rnd_ok rnd_zero"
  by (simp add: rnd_ok_def rnd_zero_def)

lemma rnd_ok_cross: "rnd_ok rnd_cross"
  by (simp add: rnd_ok_def rnd_cross_def)

lemma rnd_ok_second: "rnd_ok rnd_second"
  by (simp add: rnd_ok_def rnd_second_def)

lemma subseq_word_mem:
  "subseq (map word wd) (map toUpperCase ws) \<Longrightarrow> p \<in> set wd \<Longrightarrow> word p \<in> toUpperCase ` set ws"
  using list_emb_set [of "(=)" "map word wd" "map toUpperCase ws" "word p"] by auto

text \<open>
  C2. For every grid and placement table returned by generateGrid, and every placement in
  the table: reading the grid cells along the recorded positions, in order, gives exactly
  the placement's word, which is the upper-cased form of a word of the input list; the
  positions are as many as the letters and all lie on the grid.
\<close>

theorem generateGrid_reads_words:
  assumes "rnd_ok rnd" "generateGrid sz ws rnd = Inr (g, wd)" "p \<in> set wd"
  shows "readAlong g (positions p) = Some (word p) \<and>
         length (positions p) = length (word p) \<and>
         (\<forall>q\<in>set (positions p). inGrid sz q) \<and>
         word p \<in> toUpperCase ` set ws"
proof -
  from generateGrid_ok [OF assms(1), of "\<lambda>_. True" ws sz] assms(2)
  have inv: "genInv (\<lambda>_. True) sz g wd" and sub: "subseq (map word wd) (map toUpperCase ws)"
    by auto
  from inv have wf: "wfGrid sz g" and po: "placedOK sz g wd" by (simp_all add: genInv_def)
  from po assms(3) have len: "length (positions p) = length (word p)"
    and cells: "\<forall>i<length (word p). inGrid sz (positions p ! i) \<and>
           cell g (positions p ! i) = [word p ! i]"
    by (simp_all add: placedOK_def)
  from readAlong_word [OF wf len cells] have "readAlong g (positions p) = Some (word p)" .
  moreover have "\<forall>q\<in>set (positions p). inGrid sz q"
  proof
    fix q assume "q \<in> set (positions p)"
    then obtain i where "i < length (positions p)" "q = positions p ! i"
      by (auto simp: in_set_conv_nth)
    with cells len show "inGrid sz q" by simp
  qed
  moreover from sub assms(3) have "word p \<in> toUpperCase ` set ws" by (rule subseq_word_mem)
  ultimately show ?thesis using len by simp
qed

theorem generateGrid_reads_words_witness:
  "rnd_ok rnd_cross \<and>
   generateGrid 3 [''cat'', ''cot''] rnd_cross = Inr (g_cross, wd_cross) \<and>
   wd_cross ! 1 \<in> set wd_cross \<and>
   positions (wd_cross ! 1) = [(0, 0), (1, 0), (2, 0)] \<and>
   readAlong g_cross (positions (wd_cross ! 1)) = Some ''COT'' \<and>
   readAlong g_cross (positions (wd_cross ! 0)) = Some ''CAT''"
proof -
  have e: "generateGrid 3 [''cat'', ''cot''] rnd_cross = Inr (g_cross, wd_cross)"
    by code_simp
  have m: "wd_cross ! 1 \<in> set wd_cross" "wd_cross ! 0 \<in> set wd_cross"
    by (simp_all add: wd_cross_def)
  have p: "positions (wd_cross ! 1) = [(0, 0), (1, 0), (2, 0)]"
    "word (wd_cross ! 1) = ''COT''" "word (wd_cross ! 0) = ''CAT''"
    by (simp_all add: wd_cross_def)
  from generateGrid_reads_words [OF rnd_ok_cross e m(1)]
       generateGrid_reads_words [OF rnd_ok_cross e m(2)] rnd_ok_cross e m p
  show ?thesis by simp
qed

text \<open>
  C7, amended. For every size of at least 1 and every word list whose words consist of
  the letters a-z and A-Z only, generateGrid returns a size-by-size grid in which every
  cell holds exactly one character in the range A-Z. (A word with any other character
  puts that character on the grid, as the counterexample after the theorem shows for the
  word 12.)
\<close>

theorem generateGrid_cells_AZ:
  assumes "1 \<le> sz" "rnd_ok rnd" "\<forall>w\<in>set ws. \<forall>ch\<in>set w. isLetter ch"
  shows "\<exists>g wd. generateGrid sz ws rnd = Inr (g, wd) \<and> length g = sz \<and>
           (\<forall>row\<in>set g. length row = sz \<and> (\<forall>c\<in>set row. \<exists>ch. c = [ch] \<and> isAZ ch))"
proof -
  from assms(3) have "\<forall>w\<in>set ws. \<forall>ch\<in>set (toUpperCase w). isAZ ch"
    by (auto simp: toUpperCase_def isAZ_toUpperChar)
  from generateGrid_ok [OF assms(2) _ this, of sz]
  obtain g wd where e: "generateGrid sz ws rnd = Inr (g, wd)"
    and inv: "genInv isAZ sz g wd"
    and full: "\<And>q. inGrid sz q \<Longrightarrow> cell g q \<noteq> ''''"
    by auto
  from inv have wf: "wfGrid sz g" and cp: "cellsP isAZ sz g" by (simp_all add: genInv_def)
  have "\<exists>ch. c = [ch] \<and> isAZ ch" if "row \<in> set g" "c \<in> set row" for row c
  proof -
    from that(1) obtain i where i: "i < length g" "row = g ! i"
      by (auto simp: in_set_conv_nth)
    from that(2) obtain j where j: "j < length row" "c = row ! j"
      by (auto simp: in_set_conv_nth)
    from wf i j that(1) have "i < sz" "j < sz" by (simp_all add: wfGrid_def)
    then have q: "inGrid sz (int i, int j)" by (simp add: inGrid_def)
    have "cell g (int i, int j) = c" using i j by (simp add: cell_def)
    with cp q full [OF q] show ?thesis unfolding cellsP_def by metis
  qed
  with e wf show ?thesis by (auto simp: wfGrid_def)
qed

theorem generateGrid_cells_AZ_witness:
  "(1::nat) \<le> 3 \<and> rnd_ok rnd_cross \<and>
   list_all (\<lambda>w. list_all isLetter w) [''cat'', ''cot''] \<and>
   generateGrid 3 [''cat'', ''cot''] rnd_cross = Inr (g_cross, wd_cross) \<and>
   list_all (\<lambda>row. length row = 3 \<and> list_all (\<lambda>c. length c = 1 \<and> isAZ (hd c)) row) g_cross"
proof -
  have l: "list_all (\<lambda>w. list_all isLetter w) [''cat'', ''cot'']" by code_simp
  then have l': "\<forall>w\<in>set [''cat'', ''cot'']. \<forall>ch\<in>set w. isLetter ch"
    by (simp add: list_all_iff)
  have e: "generateGrid 3 [''cat'', ''cot''] rnd_cross = Inr (g_cross, wd_cross)"
    by code_simp
  from generateGrid_cells_AZ [OF _ rnd_ok_cross l', of 3] e
  have "\<forall>row\<in>set g_cross. length row = 3 \<and> (\<forall>c\<in>set row. \<exists>ch. c = [ch] \<and> isAZ ch)"
    by simp
  then have "list_all (\<lambda>row. length row = 3 \<and> list_all (\<lambda>c. length c = 1 \<and> isAZ (hd c)) row) g_cross"
    by (fastforce simp: list_all_iff)
  with rnd_ok_cross l e show ?thesis by simp
qed

theorem generateGrid_cells_AZ_counterexample:
  "(1::nat) \<le> 2 \<and> rnd_ok rnd_zero \<and>
   generateGrid 2 [''12''] rnd_zero =
     Inr ([[''1'', ''2''], [''A'', ''A'']],
          [\<lparr>word = ''12'', foundBy = None, positions = [(0, 0), (0, 1)]\<rparr>]) \<and>
   \<not> isAZ CHR ''1'' \<and>
   \<not> (\<exists>g wd. generateGrid 2 [''12''] rnd_zero = Inr (g, wd) \<and>
         (\<forall>row\<in>set g. \<forall>c\<in>set row. \<exists>ch. c = [ch] \<and> isAZ ch))"
proof -
  have e: "generateGrid 2 [''12''] rnd_zero =
     Inr ([[''1'', ''2''], [''A'', ''A'']],
          [\<lparr>word = ''12'', foundBy = None, positions = [(0, 0), (0, 1)]\<rparr>])"
    by code_simp
  have n: "\<not> isAZ CHR ''1''" by code_simp
  from e n have "\<not> (\<exists>g wd. generateGrid 2 [''12''] rnd_zero = Inr (g, wd) \<and>
         (\<forall>row\<in>set g. \<forall>c\<in>set row. \<exists>ch. c = [ch] \<and> isAZ ch))"
    by auto
  with e n rnd_ok_zero show ?thesis by simp
qed

lemma attemptPlaces_valid:
  assumes "wfGrid sz g" "rnd_ok rnd"
  shows "attemptPlaces sz w rnd (g, wd, n) \<longleftrightarrow> attemptValid sz g w rnd n"
proof (cases "attemptValid sz g w rnd n")
  case True
  from assms(2) have u: "0 \<le> rnd n" "rnd n < 1" by (simp_all add: rnd_ok_def)
  from attempt_valid [OF assms(1) u True, where wd = wd] True show ?thesis
    by (auto simp: attemptPlaces_def)
next
  case False
  from assms(2) have u: "0 \<le> rnd n" "rnd n < 1" by (simp_all add: rnd_ok_def)
  from attempt_invalid [OF assms(1) u False, where wd = wd] False show ?thesis
    by (simp add: attemptPlaces_def)
qed

text \<open>
  C9. For every size of at least 1 and every word list, generateGrid returns a result and
  no error, and the words of the placements returned are a subsequence of the upper-cased
  input words, so there are at most as many placements as words. Its loop over the words
  computes the run of the specification from every state with a proper grid: the words
  are taken in list order, each in upper case; for each, of the attempts 0 to 99 of three
  draws each, the first valid one wins, its letters are written and its placement is
  appended; a word whose 100 attempts all fail leaves the grid and the table as they
  are, and the words after it are attempted all the same. The table generateGrid returns
  is the table of that run from the empty grid, and its grid is the grid of that run with
  every letter kept. For each word the loop of the code returns the state of the first
  attempt among 100 that sets \<^verbatim>\<open>placed\<close>, and the unchanged state 300 draws later when
  there is none; an attempt sets \<^verbatim>\<open>placed\<close> exactly when it is valid: every cell of its
  line is on the grid and is unoccupied or holds the letter the word needs there.
\<close>

theorem generateGrid_total:
  assumes "1 \<le> sz" "rnd_ok rnd"
  shows "(\<exists>g wd. generateGrid sz ws rnd = Inr (g, wd) \<and>
            subseq (map word wd) (map toUpperCase ws) \<and> length wd \<le> length ws) \<and>
         (\<forall>st ws'. wfGrid sz (fst st) \<longrightarrow>
            placeWords sz ws' rnd st = Inr (specPlaceWords sz rnd ws' st)) \<and>
         (\<exists>g. generateGrid sz ws rnd =
                Inr (g, fst (snd (specPlaceWords sz rnd ws (emptyGrid sz, [], 0)))) \<and>
              wfGrid sz g \<and>
              (\<forall>q. inGrid sz q \<and>
                   cell (fst (specPlaceWords sz rnd ws (emptyGrid sz, [], 0))) q \<noteq> '''' \<longrightarrow>
                 cell g q = cell (fst (specPlaceWords sz rnd ws (emptyGrid sz, [], 0))) q)) \<and>
         (\<forall>g wd w n. wfGrid sz g \<longrightarrow>
            (case find (\<lambda>j. attemptPlaces sz w rnd (g, wd, n + 3 * j)) [0..<100] of
               None \<Rightarrow> placeLoop sz w rnd False 0 (g, wd, n) = Inr (g, wd, n + 300)
             | Some j \<Rightarrow>
                 (\<exists>g'. placeLoop sz w rnd False 0 (g, wd, n) =
                         Inr (g', wd @ [placement sz w rnd (n + 3 * j)], n + 3 * (j + 1)) \<and>
                       placementAttempt sz w rnd (g, wd, n + 3 * j) =
                         Inr ((g', wd @ [placement sz w rnd (n + 3 * j)], n + 3 * j + 3), True)))) \<and>
         (\<forall>g wd w n. wfGrid sz g \<longrightarrow>
            (attemptPlaces sz w rnd (g, wd, n) \<longleftrightarrow> attemptValid sz g w rnd n))"
proof (intro conjI allI impI)
  from generateGrid_ok [OF assms(2), of "\<lambda>_. True" ws sz]
  obtain g wd where e: "generateGrid sz ws rnd = Inr (g, wd)"
    and sub: "subseq (map word wd) (map toUpperCase ws)"
    by auto
  from sub have "length (map word wd) \<le> length (map toUpperCase ws)"
    by (rule list_emb_length)
  with e sub show "\<exists>g wd. generateGrid sz ws rnd = Inr (g, wd) \<and>
            subseq (map word wd) (map toUpperCase ws) \<and> length wd \<le> length ws"
    by auto
next
  fix st :: gen and ws' assume "wfGrid sz (fst st)"
  from placeWords_spec [OF assms(2) this]
  show "placeWords sz ws' rnd st = Inr (specPlaceWords sz rnd ws' st)" by simp
next
  let ?r = "specPlaceWords sz rnd ws (emptyGrid sz, [], 0)"
  obtain g1 wd n1 where r: "?r = (g1, wd, n1)" by (cases ?r)
  have "wfGrid sz (fst (emptyGrid sz, [] :: WordData list, 0 :: nat))"
    by (simp add: wfGrid_emptyGrid)
  from placeWords_spec [OF assms(2) this, of ws] r
  have p: "placeWords sz ws rnd (emptyGrid sz, [], 0) = Inr (g1, wd, n1)"
    and wf1: "wfGrid sz g1"
    by simp_all
  have cp1: "cellsP (\<lambda>_. True) sz g1"
    using placeWords_inv [OF genInv_emptyGrid assms(2), of ws "\<lambda>_. True" sz 0] p
    by (auto simp: genInv_def)
  from fillGrid_ok [OF assms(2) _ wf1 cp1, of 0 n1]
  obtain g n' where f: "fillGrid sz rnd 0 (g1, n1) = Inr (g, n')"
    and wf: "wfGrid sz g"
    and keep: "\<forall>q. inGrid sz q \<and> cell g1 q \<noteq> '''' \<longrightarrow> cell g q = cell g1 q"
    by auto
  have "generateGrid sz ws rnd = Inr (g, wd)"
    using p f by (simp add: generateGrid_def)
  with wf keep r
  show "\<exists>g. generateGrid sz ws rnd = Inr (g, fst (snd ?r)) \<and> wfGrid sz g \<and>
              (\<forall>q. inGrid sz q \<and> cell (fst ?r) q \<noteq> '''' \<longrightarrow> cell g q = cell (fst ?r) q)"
    by auto
next
  fix g wd w n assume wf: "wfGrid sz g"
  have "(\<lambda>j. attemptPlaces sz w rnd (g, wd, n + 3 * j)) =
        (\<lambda>j. attemptValid sz g w rnd (n + 3 * j))"
    by (rule ext) (rule attemptPlaces_valid [OF wf assms(2)])
  with placeLoop_first_valid [OF wf assms(2), where w = w and n = n and t = 0 and wd = wd]
  show "case find (\<lambda>j. attemptPlaces sz w rnd (g, wd, n + 3 * j)) [0..<100] of
               None \<Rightarrow> placeLoop sz w rnd False 0 (g, wd, n) = Inr (g, wd, n + 300)
             | Some j \<Rightarrow>
                 (\<exists>g'. placeLoop sz w rnd False 0 (g, wd, n) =
                         Inr (g', wd @ [placement sz w rnd (n + 3 * j)], n + 3 * (j + 1)) \<and>
                       placementAttempt sz w rnd (g, wd, n + 3 * j) =
                         Inr ((g', wd @ [placement sz w rnd (n + 3 * j)], n + 3 * j + 3), True))"
    by (auto split: option.splits)
next
  fix g wd w n assume wf: "wfGrid sz g"
  then show "attemptPlaces sz w rnd (g, wd, n) \<longleftrightarrow> attemptValid sz g w rnd n"
    using assms(2) by (rule attemptPlaces_valid)
qed

theorem generateGrid_total_witness:
  "(1::nat) \<le> 3 \<and> rnd_ok rnd_zero \<and> rnd_ok rnd_second \<and> wfGrid 3 (emptyGrid 3) \<and> wfGrid 3 g_cat \<and>
   generateGrid 3 [''cat'', ''dog'', ''ca''] rnd_zero = Inr (g_ca, wd_ca) \<and>
   subseq (map word wd_ca) (map toUpperCase [''cat'', ''dog'', ''ca'']) \<and>
   specPlaceWords 3 rnd_zero [''cat'', ''dog'', ''ca''] (emptyGrid 3, [], 0) = (g_cat, wd_ca, 306) \<and>
   placeWords 3 [''cat'', ''dog'', ''ca''] rnd_zero (emptyGrid 3, [], 0) = Inr (g_cat, wd_ca, 306) \<and>
   find (\<lambda>j. attemptPlaces 3 ''DOG'' rnd_zero (g_cat, take 1 wd_ca, 3 + 3 * j)) [0..<100] = None \<and>
   placeLoop 3 ''DOG'' rnd_zero False 0 (g_cat, take 1 wd_ca, 3) = Inr (g_cat, take 1 wd_ca, 303) \<and>
   generateGrid 3 [''cat'', ''cot''] rnd_second = Inr (g_cross, wd_cross) \<and>
   specPlaceWords 3 rnd_second [''cat'', ''cot''] (emptyGrid 3, [], 0) = (g_cot, wd_cross, 9) \<and>
   placeWords 3 [''cat'', ''cot''] rnd_second (emptyGrid 3, [], 0) = Inr (g_cot, wd_cross, 9) \<and>
   find (\<lambda>j. attemptPlaces 3 ''COT'' rnd_second (g_cat, take 1 wd_cross, 3 + 3 * j)) [0..<100] =
     Some 1 \<and>
   placeLoop 3 ''COT'' rnd_second False 0 (g_cat, take 1 wd_cross, 3) = Inr (g_cot, wd_cross, 9) \<and>
   \<not> attemptValid 3 g_cat ''COT'' rnd_second 3 \<and>
   attemptPlaces 3 ''COT'' rnd_second (g_cat, take 1 wd_cross, 6) \<and>
   attemptValid 3 g_cat ''COT'' rnd_second 6"
proof -
  let ?ws = "[''cat'', ''dog'', ''ca'']"
  let ?ws2 = "[''cat'', ''cot'']"
  have e: "generateGrid 3 ?ws rnd_zero = Inr (g_ca, wd_ca)" by code_simp
  have e2: "generateGrid 3 ?ws2 rnd_second = Inr (g_cross, wd_cross)" by code_simp
  have wf: "wfGrid 3 (emptyGrid 3)" "wfGrid 3 g_cat" by code_simp+
  have wf0: "wfGrid 3 (fst (emptyGrid 3, [] :: WordData list, 0 :: nat))" by code_simp
  have sp: "specPlaceWords 3 rnd_zero ?ws (emptyGrid 3, [], 0) = (g_cat, wd_ca, 306)"
    by code_simp
  have sp2: "specPlaceWords 3 rnd_second ?ws2 (emptyGrid 3, [], 0) = (g_cot, wd_cross, 9)"
    by code_simp
  have f1: "find (\<lambda>j. attemptPlaces 3 ''DOG'' rnd_zero (g_cat, take 1 wd_ca, 3 + 3 * j)) [0..<100] = None"
    by code_simp
  have f2: "find (\<lambda>j. attemptPlaces 3 ''COT'' rnd_second (g_cat, take 1 wd_cross, 3 + 3 * j)) [0..<100] =
     Some 1"
    by code_simp
  have p: "take 1 wd_cross @ [placement 3 ''COT'' rnd_second (3 + 3 * 1)] = wd_cross" by code_simp
  have a: "placementAttempt 3 ''COT'' rnd_second (g_cat, take 1 wd_cross, 3 + 3 * 1) =
             Inr ((g_cot, wd_cross, 9), True)"
    by code_simp
  have ap: "attemptPlaces 3 ''COT'' rnd_second (g_cat, take 1 wd_cross, 6)"
    "\<not> attemptPlaces 3 ''COT'' rnd_second (g_cat, take 1 wd_cross, 3)"
    by code_simp+
  have one: "(1::nat) \<le> 3" by simp
  note t = generateGrid_total [OF one rnd_ok_zero, of ?ws]
  note t2 = generateGrid_total [OF one rnd_ok_second, of ?ws2]
  from t e have s: "subseq (map word wd_ca) (map toUpperCase ?ws)"
    by auto
  from t [THEN conjunct2, THEN conjunct1, rule_format,
      where st = "(emptyGrid 3, [], 0)" and ws' = ?ws, OF wf0] sp
  have pw: "placeWords 3 ?ws rnd_zero (emptyGrid 3, [], 0) = Inr (g_cat, wd_ca, 306)"
    by simp
  from t2 [THEN conjunct2, THEN conjunct1, rule_format,
      where st = "(emptyGrid 3, [], 0)" and ws' = ?ws2, OF wf0] sp2
  have pw2: "placeWords 3 ?ws2 rnd_second (emptyGrid 3, [], 0) = Inr (g_cot, wd_cross, 9)"
    by simp
  note loop = t [THEN conjunct2, THEN conjunct2, THEN conjunct2, THEN conjunct1, rule_format]
  note loop2 = t2 [THEN conjunct2, THEN conjunct2, THEN conjunct2, THEN conjunct1, rule_format]
  note iff2 = t2 [THEN conjunct2, THEN conjunct2, THEN conjunct2, THEN conjunct2, rule_format]
  from loop [where g = g_cat and w = "''DOG''" and n = 3 and wd = "take 1 wd_ca", OF wf(2)] f1
  have l1: "placeLoop 3 ''DOG'' rnd_zero False 0 (g_cat, take 1 wd_ca, 3) =
     Inr (g_cat, take 1 wd_ca, 303)"
    by simp
  from loop2 [where g = g_cat and w = "''COT''" and n = 3 and wd = "take 1 wd_cross", OF wf(2)]
    f2 a p
  have l2: "placeLoop 3 ''COT'' rnd_second False 0 (g_cat, take 1 wd_cross, 3) =
     Inr (g_cot, wd_cross, 9)"
    by auto
  from iff2 [where g = g_cat and w = "''COT''" and n = 6 and wd = "take 1 wd_cross", OF wf(2)] ap(1)
  have av: "attemptValid 3 g_cat ''COT'' rnd_second 6" by simp
  from iff2 [where g = g_cat and w = "''COT''" and n = 3 and wd = "take 1 wd_cross", OF wf(2)] ap(2)
  have nv: "\<not> attemptValid 3 g_cat ''COT'' rnd_second 3" by simp
  from rnd_ok_zero rnd_ok_second wf e s sp pw f1 l1 e2 sp2 pw2 f2 l2 nv ap(1) av
  show ?thesis by simp
qed

section \<open>Sessions evaluated\<close>

text \<open>
  C1, evaluated on the code: the session of \<open>trace_early\<close> is reachable and ends in the
  state completed with the placement of STAR unclaimed. With one word left the interval
  callback schedules the completion (\<open>foundWords.length + 1 >= wordList.length\<close>) although
  its tick claimed nothing.
\<close>

theorem completed_with_unclaimed_word:
  "reachable (foldl step initial trace_early) \<and>
   summary (foldl step initial (butlast trace_early)) =
     (Playing,
      [''CAT'', ''DOG'', ''TREE'', ''BOOK'', ''FISH'', ''SUN'', ''MOON'', ''CAR'', ''BIRD'', ''STAR''],
      [Some AI, Some AI, Some AI, Some AI, Some AI, Some AI, Some AI, Some AI, Some AI, None],
      [(''CAT'', AI), (''DOG'', AI), (''TREE'', AI), (''BOOK'', AI), (''FISH'', AI),
       (''SUN'', AI), (''MOON'', AI), (''CAR'', AI), (''BIRD'', AI)],
      0, 9, [Finish]) \<and>
   summary (foldl step initial trace_early) =
     (Completed,
      [''CAT'', ''DOG'', ''TREE'', ''BOOK'', ''FISH'', ''SUN'', ''MOON'', ''CAR'', ''BIRD'', ''STAR''],
      [Some AI, Some AI, Some AI, Some AI, Some AI, Some AI, Some AI, Some AI, Some AI, None],
      [(''CAT'', AI), (''DOG'', AI), (''TREE'', AI), (''BOOK'', AI), (''FISH'', AI),
       (''SUN'', AI), (''MOON'', AI), (''CAR'', AI), (''BIRD'', AI)],
      0, 9, [])"
proof -
  have run: "runnable initial trace_early" by code_simp
  have ok: "list_all drawsOK trace_early" by (simp add: trace_early_def rnd_ok_rnd0)
  from reachable_run [OF reachable_initial run ok]
  have r: "reachable (foldl step initial trace_early)" .
  have a: "summary (foldl step initial (butlast trace_early)) =
     (Playing,
      [''CAT'', ''DOG'', ''TREE'', ''BOOK'', ''FISH'', ''SUN'', ''MOON'', ''CAR'', ''BIRD'', ''STAR''],
      [Some AI, Some AI, Some AI, Some AI, Some AI, Some AI, Some AI, Some AI, Some AI, None],
      [(''CAT'', AI), (''DOG'', AI), (''TREE'', AI), (''BOOK'', AI), (''FISH'', AI),
       (''SUN'', AI), (''MOON'', AI), (''CAR'', AI), (''BIRD'', AI)],
      0, 9, [Finish])"
    by code_simp
  have b: "summary (foldl step initial trace_early) =
     (Completed,
      [''CAT'', ''DOG'', ''TREE'', ''BOOK'', ''FISH'', ''SUN'', ''MOON'', ''CAR'', ''BIRD'', ''STAR''],
      [Some AI, Some AI, Some AI, Some AI, Some AI, Some AI, Some AI, Some AI, Some AI, None],
      [(''CAT'', AI), (''DOG'', AI), (''TREE'', AI), (''BOOK'', AI), (''FISH'', AI),
       (''SUN'', AI), (''MOON'', AI), (''CAR'', AI), (''BIRD'', AI)],
      0, 9, [])"
    by code_simp
  from r a b show ?thesis by simp
qed

text \<open>For a step of 0 or 1 and a word no longer than the grid, every anchor coordinate
  that can be drawn keeps the whole line within \<open>0..<sz\<close>; only the step - 1 is at fault.\<close>

lemma anchor_fits_forward:
  assumes u: "0 \<le> u" "u < 1" and d: "d = 0 \<or> d = 1" and j: "j < len" and len: "len \<le> sz"
  shows "0 \<le> randomInt u 0 (anchorMax sz d len) + d * int j \<and>
         randomInt u 0 (anchorMax sz d len) + d * int j < int sz"
proof -
  from d j len have "0 \<le> anchorMax sz d len" by (auto simp: anchorMax_def)
  from randomInt_range [OF u this]
  have "0 \<le> randomInt u 0 (anchorMax sz d len)"
    "randomInt u 0 (anchorMax sz d len) \<le> anchorMax sz d len"
    by simp_all
  with d j len show ?thesis by (auto simp: anchorMax_def)
qed

text \<open>
  C3, evaluated on the code: on the 8 by 8 grid, for the word CAT, the draws 0.375, 0, 0
  give the direction up and the anchor (0, 0), drawn from the rows 0 to
  \<open>anchorMax 8 (- 1) 3 = 4\<close>; the second and third cell of the line are above the grid,
  and the validity loop rejects the attempt.
\<close>

theorem anchor_overflows_upwards:
  "drawDir (rnd_up 0) = Inr (- 1, 0) \<and>
   anchorMax 8 (- 1) 3 = 4 \<and>
   randomInt (rnd_up 1) 0 (anchorMax 8 (- 1) 3) = 0 \<and>
   randomInt (rnd_up 2) 0 (anchorMax 8 0 3) = 0 \<and>
   map (lineCell 0 0 (- 1, 0)) [0..<3] = [(0, 0), (- 1, 0), (- 2, 0)] \<and>
   \<not> inGrid 8 (- 1, 0) \<and> \<not> inGrid 8 (- 2, 0) \<and>
   scanLine 8 (emptyGrid 8) ''CAT'' 0 0 (- 1, 0) 0 [] = Inr None \<and>
   placementAttempt 8 ''CAT'' rnd_up (emptyGrid 8, [], 0) = Inr ((emptyGrid 8, [], 3), False)"
  by code_simp

section \<open>Claims are final\<close>

lemma claimInv_initial: "claimInv initial"
  by (simp add: claimInv_def initial_def pendingClaims_def)

lemma aiTick_cases:
  "wordList (aiTick s u1 u2 u3) = wordList s \<and>
   ((gameState (aiTick s u1 u2 u3) = gameState s \<and>
       (timeouts (aiTick s u1 u2 u3) = timeouts s \<or>
        timeouts (aiTick s u1 u2 u3) = timeouts s @ [Finish])) \<or>
    (gameState s = Playing \<and> gameState (aiTick s u1 u2 u3) = AnimatingAI \<and>
       (\<exists>c\<in>set (unfound (wordList s)).
          timeouts (aiTick s u1 u2 u3) = timeouts s @ [AiClaim c] \<or>
          timeouts (aiTick s u1 u2 u3) = timeouts s @ [AiClaim c, Finish])))"
proof (cases "gameState s = Playing")
  case False
  then show ?thesis by (simp add: aiTick_def)
next
  case True
  define cands where "cands = unfound (wordList s)"
  define k where "k = randomInt u3 0 (int (length cands) - 1)"
  define byLength where "byLength \<longleftrightarrow> difficulty s = Hard \<and> u2 < 6 / 10"
  define chosen where "chosen =
    (if byLength then hd (sort_key (\<lambda>w. - int (length (word w))) cands) else cands ! nat k)"
  show ?thesis
  proof (cases "u1 < aiSkill (DIFFICULTY_CONFIG (difficulty s)) \<and> cands \<noteq> []")
    case False
    with True show ?thesis
      by (auto simp: aiTick_def Let_def cands_def)
  next
    case claim: True
    show ?thesis
    proof (cases "\<not> byLength \<and> \<not> (0 \<le> k \<and> k < int (length cands))")
      case True
      with \<open>gameState s = Playing\<close> claim show ?thesis
        by (simp add: aiTick_def Let_def cands_def k_def byLength_def)
    next
      case False
      have "chosen \<in> set cands"
      proof (cases byLength)
        case True
        from claim have "sort_key (\<lambda>w. - int (length (word w))) cands \<noteq> []"
          by (metis length_sort length_0_conv)
        then have "hd (sort_key (\<lambda>w. - int (length (word w))) cands) \<in>
                     set (sort_key (\<lambda>w. - int (length (word w))) cands)"
          by (rule hd_in_set)
        with True show ?thesis by (simp add: chosen_def)
      next
        case nb: False
        with False have "nat k < length cands" by (auto simp: nat_less_iff)
        with nb show ?thesis by (simp add: chosen_def)
      qed
      moreover have "timeouts (aiTick s u1 u2 u3) = timeouts s @ [AiClaim chosen] \<or>
          timeouts (aiTick s u1 u2 u3) = timeouts s @ [AiClaim chosen, Finish]"
        using \<open>gameState s = Playing\<close> claim False
        by (auto simp: aiTick_def Let_def cands_def k_def byLength_def chosen_def)
      moreover have "gameState (aiTick s u1 u2 u3) = AnimatingAI"
        using \<open>gameState s = Playing\<close> claim False
        by (auto simp: aiTick_def Let_def cands_def k_def byLength_def chosen_def)
      moreover have "wordList (aiTick s u1 u2 u3) = wordList s"
        using \<open>gameState s = Playing\<close> claim False
        by (auto simp: aiTick_def Let_def cands_def k_def byLength_def chosen_def)
      ultimately show ?thesis
        using \<open>gameState s = Playing\<close> unfolding cands_def by blast
    qed
  qed
qed

lemma handleCellMouseUp_cases:
  "handleCellMouseUp s = s\<lparr>selected := []\<rparr> \<or>
   (gameState s = Playing \<and>
    (\<exists>x\<in>set (wordList s). foundBy x = None \<and>
       handleCellMouseUp s =
         s\<lparr>gameState := AnimatingPlayer, timeouts := timeouts s @ [PlayerClaim (word x) x]\<rparr>))"
proof (cases "gameState s \<noteq> Playing \<or> length (selected s) < 2")
  case True
  then show ?thesis by (auto simp: handleCellMouseUp_def)
next
  case False
  show ?thesis
  proof (cases "find (\<lambda>wd. matchesSel wd (selected s)) (wordList s)")
    case None
    with False show ?thesis by (simp add: handleCellMouseUp_def getSelectedWord_find)
  next
    case (Some x)
    then have "x \<in> set (wordList s)" "foundBy x = None"
      by (auto simp: find_Some_iff matchesSel_def)
    with False Some show ?thesis
      by (auto simp: handleCellMouseUp_def getSelectedWord_find)
  qed
qed

lemma claimInvI:
  assumes "\<And>x y. x \<in> set (wordList s) \<Longrightarrow> y \<in> set (wordList s) \<Longrightarrow> word x = word y \<Longrightarrow>
             foundBy x = foundBy y"
    and "length (pendingClaims s) \<le> 1"
    and "pendingClaims s \<noteq> [] \<Longrightarrow> gameState s \<noteq> Playing"
    and "\<And>t y. t \<in> set (pendingClaims s) \<Longrightarrow> y \<in> set (wordList s) \<Longrightarrow>
             claimWord t = Some (word y) \<Longrightarrow> foundBy y = None"
  shows "claimInv s"
  unfolding claimInv_def using assms by blast

lemma claimInv_same:
  "claimInv s \<Longrightarrow> x \<in> set (wordList s) \<Longrightarrow> y \<in> set (wordList s) \<Longrightarrow> word x = word y \<Longrightarrow>
     foundBy x = foundBy y"
  unfolding claimInv_def by blast

lemma claimInv_one: "claimInv s \<Longrightarrow> length (pendingClaims s) \<le> 1"
  unfolding claimInv_def by blast

lemma claimInv_playing: "claimInv s \<Longrightarrow> gameState s = Playing \<Longrightarrow> pendingClaims s = []"
  unfolding claimInv_def by blast

lemma claimInv_pending:
  "claimInv s \<Longrightarrow> t \<in> set (pendingClaims s) \<Longrightarrow> y \<in> set (wordList s) \<Longrightarrow>
     claimWord t = Some (word y) \<Longrightarrow> foundBy y = None"
  unfolding claimInv_def by blast

lemma claimInv_cong:
  assumes inv: "claimInv s" and wl: "wordList s' = wordList s" and ts: "timeouts s' = timeouts s"
    and gs: "gameState s' = gameState s \<or> gameState s' \<noteq> Playing"
  shows "claimInv s'"
proof -
  from ts have p: "pendingClaims s' = pendingClaims s" by (simp add: pendingClaims_def)
  show ?thesis
  proof (rule claimInvI)
    show "length (pendingClaims s') \<le> 1" using claimInv_one [OF inv] p by simp
    show "gameState s' \<noteq> Playing" if "pendingClaims s' \<noteq> []"
      using that gs claimInv_playing [OF inv] p by auto
  qed (use inv wl p in \<open>auto dest: claimInv_same claimInv_pending\<close>)
qed

lemma claimInv_gameEndEffect: "claimInv s \<Longrightarrow> claimInv (gameEndEffect s)"
  by (erule claimInv_cong) (simp_all add: gameEndEffect_def)

lemma claimInv_schedule:
  assumes inv: "claimInv s" and pl: "gameState s = Playing"
    and x: "x \<in> set (wordList s)" "foundBy x = None" and t: "claimWord t = Some (word x)"
    and s': "wordList s' = wordList s" "gameState s' \<noteq> Playing"
      "timeouts s' = timeouts s @ [t] \<or> timeouts s' = timeouts s @ [t, Finish]"
  shows "claimInv s'"
proof -
  from inv pl have none: "pendingClaims s = []" by (rule claimInv_playing)
  with s'(3) t have p: "pendingClaims s' = [t]"
    by (auto simp: pendingClaims_def)
  show ?thesis
  proof (rule claimInvI)
    fix a b assume "a \<in> set (wordList s')" "b \<in> set (wordList s')" "word a = word b"
    with inv s'(1) show "foundBy a = foundBy b" by (auto dest: claimInv_same)
  next
    show "length (pendingClaims s') \<le> 1" by (simp add: p)
    show "gameState s' \<noteq> Playing" by (rule s'(2))
  next
    fix u y assume "u \<in> set (pendingClaims s')" "y \<in> set (wordList s')"
      "claimWord u = Some (word y)"
    with p t s'(1) have "y \<in> set (wordList s)" "word x = word y" by simp_all
    with claimInv_same [OF inv x(1)] x(2) show "foundBy y = None" by simp
  qed
qed

lemma claimInv_MouseUp: "claimInv s \<Longrightarrow> claimInv (handleCellMouseUp s)"
proof -
  assume inv: "claimInv s"
  from handleCellMouseUp_cases [of s] show ?thesis
  proof
    assume "handleCellMouseUp s = s\<lparr>selected := []\<rparr>"
    with inv show ?thesis by (auto intro: claimInv_cong)
  next
    assume "gameState s = Playing \<and>
      (\<exists>x\<in>set (wordList s). foundBy x = None \<and>
         handleCellMouseUp s =
           s\<lparr>gameState := AnimatingPlayer, timeouts := timeouts s @ [PlayerClaim (word x) x]\<rparr>)"
    then obtain x where pl: "gameState s = Playing" and x: "x \<in> set (wordList s)" "foundBy x = None"
      and h: "handleCellMouseUp s =
           s\<lparr>gameState := AnimatingPlayer, timeouts := timeouts s @ [PlayerClaim (word x) x]\<rparr>"
      by blast
    show ?thesis
      by (rule claimInv_schedule [OF inv pl x, of "PlayerClaim (word x) x"]) (simp_all add: h)
  qed
qed

lemma claimInv_aiTick: "claimInv s \<Longrightarrow> claimInv (aiTick s u1 u2 u3)"
proof -
  assume inv: "claimInv s"
  let ?s' = "aiTick s u1 u2 u3"
  from aiTick_cases [of s u1 u2 u3] have wl: "wordList ?s' = wordList s" by simp
  from aiTick_cases [of s u1 u2 u3] consider
    (idle) "gameState ?s' = gameState s" "timeouts ?s' = timeouts s \<or> timeouts ?s' = timeouts s @ [Finish]"
    | (claim) c where "gameState s = Playing" "gameState ?s' = AnimatingAI"
      "c \<in> set (unfound (wordList s))"
      "timeouts ?s' = timeouts s @ [AiClaim c] \<or> timeouts ?s' = timeouts s @ [AiClaim c, Finish]"
    by blast
  then show ?thesis
  proof cases
    case idle
    from idle(2) have p: "pendingClaims ?s' = pendingClaims s"
      by (auto simp: pendingClaims_def)
    show ?thesis
    proof (rule claimInvI)
      show "length (pendingClaims ?s') \<le> 1" using claimInv_one [OF inv] p by simp
      show "gameState ?s' \<noteq> Playing" if "pendingClaims ?s' \<noteq> []"
        using that idle(1) claimInv_playing [OF inv] p by auto
    qed (use inv wl p in \<open>auto dest: claimInv_same claimInv_pending\<close>)
  next
    case claim
    from claim(3) have c: "c \<in> set (wordList s)" "foundBy c = None"
      by (simp_all add: unfound_def)
    show ?thesis
      by (rule claimInv_schedule [OF inv claim(1) c, of "AiClaim c"])
         (simp_all add: wl claim)
  qed
qed

lemma filter_remove_nth:
  assumes "k < length ts"
  shows "length (filter P ts) =
           length (filter P (take k ts @ drop (Suc k) ts)) + (if P (ts ! k) then 1 else 0)"
proof -
  from assms have "ts = take k ts @ ts ! k # drop (Suc k) ts"
    by (rule id_take_nth_drop)
  then have "filter P ts = filter P (take k ts) @ filter P (ts ! k # drop (Suc k) ts)"
    by (metis filter_append)
  then show ?thesis by simp
qed

lemma set_remove_nth: "set (take k ts @ drop (Suc k) ts) \<subseteq> set ts"
  by (auto dest: in_set_takeD in_set_dropD)

lemma wordList_runTimeout:
  "wordList (runTimeout t s) =
     (case claimWord t of
        None \<Rightarrow> wordList s
      | Some w \<Rightarrow>
          map (\<lambda>x. if word x = w
                   then x\<lparr>foundBy := Some (case t of PlayerClaim _ _ \<Rightarrow> Player | _ \<Rightarrow> AI)\<rparr>
                   else x) (wordList s))"
  by (cases t) simp_all

lemma claimInv_Fire:
  assumes inv: "claimInv s" and k: "k < length (timeouts s)"
  shows "claimInv (step s (Fire k))"
proof -
  let ?t = "timeouts s ! k"
  let ?rest = "take k (timeouts s) @ drop (Suc k) (timeouts s)"
  let ?s0 = "s\<lparr>timeouts := ?rest\<rparr>"
  show ?thesis
  proof (cases "claimWord ?t")
    case None
    then have t: "?t = Finish" by (cases ?t) simp_all
    from filter_remove_nth [OF k, of "\<lambda>t. claimWord t \<noteq> None"] None
    have len: "length (pendingClaims (runTimeout ?t ?s0)) = length (pendingClaims s)"
      by (simp add: pendingClaims_def t)
    have sub: "set (pendingClaims (runTimeout ?t ?s0)) \<subseteq> set (pendingClaims s)"
      using set_remove_nth [of k "timeouts s"] by (auto simp: pendingClaims_def t)
    have "claimInv (runTimeout ?t ?s0)"
    proof (rule claimInvI)
      show "length (pendingClaims (runTimeout ?t ?s0)) \<le> 1"
        using claimInv_one [OF inv] len by simp
      show "gameState (runTimeout ?t ?s0) \<noteq> Playing" by (simp add: t)
    next
      fix x y assume "x \<in> set (wordList (runTimeout ?t ?s0))"
        "y \<in> set (wordList (runTimeout ?t ?s0))" "word x = word y"
      then show "foundBy x = foundBy y"
        using claimInv_same [OF inv, of x y] by (simp add: t)
    next
      fix u y assume "u \<in> set (pendingClaims (runTimeout ?t ?s0))"
        "y \<in> set (wordList (runTimeout ?t ?s0))" "claimWord u = Some (word y)"
      with sub show "foundBy y = None"
        using claimInv_pending [OF inv, of u y] by (auto simp: t)
    qed
    with k t show ?thesis by (simp add: Let_def)
  next
    case (Some w)
    define a where "a = (case ?t of PlayerClaim _ _ \<Rightarrow> Player | _ \<Rightarrow> AI)"
    have wl: "wordList (runTimeout ?t ?s0) =
        map (\<lambda>x. if word x = w then x\<lparr>foundBy := Some a\<rparr> else x) (wordList s)"
      by (simp add: wordList_runTimeout Some a_def)
    have ts: "timeouts (runTimeout ?t ?s0) = ?rest" by (cases ?t) simp_all
    from filter_remove_nth [OF k, of "\<lambda>t. claimWord t \<noteq> None"] Some claimInv_one [OF inv]
    have "length (filter (\<lambda>t. claimWord t \<noteq> None) ?rest) = 0"
      by (simp add: pendingClaims_def)
    then have none: "pendingClaims (runTimeout ?t ?s0) = []"
      by (simp add: pendingClaims_def ts)
    have "claimInv (runTimeout ?t ?s0)"
    proof (rule claimInvI)
      fix x y assume x: "x \<in> set (wordList (runTimeout ?t ?s0))"
        and y: "y \<in> set (wordList (runTimeout ?t ?s0))" and eq: "word x = word y"
      from x obtain x0 where x0: "x0 \<in> set (wordList s)"
        "x = (if word x0 = w then x0\<lparr>foundBy := Some a\<rparr> else x0)"
        by (auto simp: wl)
      from y obtain y0 where y0: "y0 \<in> set (wordList s)"
        "y = (if word y0 = w then y0\<lparr>foundBy := Some a\<rparr> else y0)"
        by (auto simp: wl)
      from x0 y0 eq have "word x0 = word y0" by (auto split: if_splits)
      with claimInv_same [OF inv x0(1) y0(1)] x0(2) y0(2) show "foundBy x = foundBy y"
        by (auto split: if_splits)
    qed (simp_all add: none)
    then have "claimInv (gameEndEffect (runTimeout ?t ?s0))" by (rule claimInv_gameEndEffect)
    with k Some show ?thesis by (cases ?t) (simp_all add: Let_def)
  qed
qed

lemma generateGrid_unclaimed:
  assumes "rnd_ok rnd" "generateGrid sz ws rnd = Inr (g, wd)" "p \<in> set wd"
  shows "foundBy p = None"
proof -
  from generateGrid_ok [OF assms(1), of "\<lambda>_. True" ws sz] assms(2)
  have "placedOK sz g wd" by (auto simp: genInv_def)
  with assms(3) show ?thesis by (simp add: placedOK_def)
qed

lemma claimInv_StartGame:
  assumes inv: "claimInv s" and none: "pendingClaims s = []" and rnd: "rnd_ok rnd"
  shows "claimInv (step s (StartGame rnd))"
proof -
  let ?conf = "DIFFICULTY_CONFIG (difficulty s)"
  have "claimInv (startGame s (difficulty s) rnd)"
  proof (cases "generateGrid (gridSize ?conf) (words ?conf) rnd")
    case (Inl e)
    with inv show ?thesis by (simp add: startGame_def)
  next
    case (Inr res)
    obtain g wd where res: "res = (g, wd)" by (cases res)
    let ?s' = "startGame s (difficulty s) rnd"
    from Inr res have wl: "wordList ?s' = wd" and ts: "timeouts ?s' = timeouts s"
      by (simp_all add: startGame_def)
    from generateGrid_unclaimed [OF rnd Inr [unfolded res]]
    have un: "\<And>p. p \<in> set wd \<Longrightarrow> foundBy p = None" .
    from ts none have p: "pendingClaims ?s' = []" by (simp add: pendingClaims_def)
    show ?thesis
      by (rule claimInvI) (simp_all add: p wl un)
  qed
  then show ?thesis by (simp add: claimInv_gameEndEffect)
qed

lemma claimInv_step:
  assumes "claimInv s" "calmStep s e"
  shows "claimInv (step s e)"
proof (cases e)
  case (StartGame rnd)
  with assms show ?thesis
    by (simp add: claimInv_StartGame calmStep_def enabled_def del: step.simps)
next
  case (SetDifficulty d)
  with assms(1) show ?thesis by (auto intro: claimInv_cong)
next
  case MainMenu
  with assms(1) show ?thesis by (auto intro: claimInv_cong)
next
  case (MouseDown r c)
  with assms(1) show ?thesis by (auto intro: claimInv_cong simp: handleCellMouseDown_def)
next
  case (MouseEnter r c)
  with assms(1) show ?thesis
    by (auto intro: claimInv_cong simp: handleCellMouseEnter_def split: option.split)
next
  case MouseUp
  with assms(1) show ?thesis by (simp add: claimInv_MouseUp)
next
  case MouseLeave
  with assms(1) show ?thesis by (auto intro: claimInv_cong)
next
  case (Tick u1 u2 u3)
  with assms(1) show ?thesis by (simp add: claimInv_aiTick)
next
  case (Fire k)
  with assms show ?thesis
    by (simp add: claimInv_Fire calmStep_def enabled_def del: step.simps)
qed

lemma calm_claimInv: "calm s \<Longrightarrow> claimInv s"
  by (induction rule: calm.induct) (simp_all add: claimInv_initial claimInv_step)

lemma calm_run:
  "calm s \<Longrightarrow> calmRunnable s es \<Longrightarrow> list_all drawsOK es \<Longrightarrow> calm (foldl step s es)"
proof (induction es arbitrary: s)
  case Nil
  then show ?case by simp
next
  case (Cons e es)
  then have "calmStep s e" by (simp add: calmStep_def enabled_def)
  with Cons.prems(1) have "calm (step s e)" by (rule calm_step)
  with Cons show ?case by simp
qed

lemma wordList_step_other:
  assumes "\<not> isStart e" "\<forall>k. e \<noteq> Fire k"
  shows "wordList (step s e) = wordList s"
proof (cases e)
  case MouseUp
  with handleCellMouseUp_cases [of s] show ?thesis by auto
next
  case (Tick u1 u2 u3)
  with aiTick_cases [of s u1 u2 u3] show ?thesis by simp
qed (use assms in \<open>auto simp: handleCellMouseDown_def handleCellMouseEnter_def split: option.split\<close>)

lemma wordList_gameEndEffect: "wordList (gameEndEffect s) = wordList s"
  by (simp add: gameEndEffect_def)

lemma wordList_Fire:
  assumes inv: "claimInv s" and k: "k < length (timeouts s)"
  shows "length (wordList (step s (Fire k))) = length (wordList s) \<and>
         (\<forall>i<length (wordList s). foundBy (wordList s ! i) \<noteq> None \<longrightarrow>
            wordList (step s (Fire k)) ! i = wordList s ! i)"
proof -
  let ?t = "timeouts s ! k"
  let ?s0 = "s\<lparr>timeouts := take k (timeouts s) @ drop (Suc k) (timeouts s)\<rparr>"
  have st: "wordList (step s (Fire k)) = wordList (runTimeout ?t ?s0)"
    using k by (cases ?t) (simp_all add: Let_def wordList_gameEndEffect)
  show ?thesis
  proof (cases "claimWord ?t")
    case None
    then show ?thesis unfolding st by (simp add: wordList_runTimeout)
  next
    case (Some w)
    from k Some have pend: "?t \<in> set (pendingClaims s)"
      by (simp add: pendingClaims_def)
    have "word (wordList s ! i) \<noteq> w"
      if "i < length (wordList s)" "foundBy (wordList s ! i) \<noteq> None" for i
      using claimInv_pending [OF inv pend, of "wordList s ! i"] that Some by auto
    then show ?thesis unfolding st by (simp add: wordList_runTimeout Some)
  qed
qed

lemma claimed_stay:
  assumes inv: "claimInv s" and en: "enabled s e" and ns: "\<not> isStart e"
  shows "length (wordList (step s e)) = length (wordList s) \<and>
         (\<forall>i<length (wordList s). foundBy (wordList s ! i) \<noteq> None \<longrightarrow>
            wordList (step s e) ! i = wordList s ! i)"
proof (cases "\<exists>k. e = Fire k")
  case True
  then obtain k where e: "e = Fire k" by blast
  with en have "k < length (timeouts s)" by (simp add: enabled_def)
  from wordList_Fire [OF inv this] e show ?thesis by simp
next
  case False
  with ns have "wordList (step s e) = wordList s" by (intro wordList_step_other) auto
  then show ?thesis by simp
qed

lemma aiTick_schedules_unfound:
  assumes "AiClaim c \<in> set (timeouts (aiTick s u1 u2 u3))" "AiClaim c \<notin> set (timeouts s)"
  shows "c \<in> set (unfound (wordList s))"
  using aiTick_cases [of s u1 u2 u3] assms by auto

lemma release_on_claimed:
  assumes "\<forall>x\<in>set (wordList s). positions x = sel \<or> rev (positions x) = sel \<longrightarrow> foundBy x \<noteq> None"
  shows "step (s\<lparr>selected := sel\<rparr>) MouseUp = s\<lparr>selected := []\<rparr>"
proof -
  from assms have "find (\<lambda>wd. matchesSel wd sel) (wordList s) = None"
    by (auto simp: find_None_iff matchesSel_def)
  then show ?thesis
    by (simp add: handleCellMouseUp_def getSelectedWord_find)
qed

text \<open>
  What holds of claims in every state: a release whose selection matches claimed
  placements only clears the selection and changes nothing else (lemma
  \<open>release_on_claimed\<close>), and every claim a tick of the rival schedules is for a placement
  that is unclaimed at that moment (lemma \<open>aiTick_schedules_unfound\<close>). What holds as long
  as no game is started while a claim timeout is pending: the word list keeps its length,
  every placement that is claimed stays as it is, and a claim timeout that fires claims a
  word that is still unclaimed.
\<close>

lemma claims_kept_without_stale_timeout:
  assumes "calm s" "enabled s e" "\<not> isStart e"
  shows "length (wordList (step s e)) = length (wordList s) \<and>
         (\<forall>i<length (wordList s). foundBy (wordList s ! i) \<noteq> None \<longrightarrow>
            wordList (step s e) ! i = wordList s ! i) \<and>
         (\<forall>k y. e = Fire k \<and> y \<in> set (wordList s) \<and>
            claimWord (timeouts s ! k) = Some (word y) \<longrightarrow> foundBy y = None)"
proof -
  from assms(1) have inv: "claimInv s" by (rule calm_claimInv)
  have fire: "foundBy y = None"
    if "e = Fire k \<and> y \<in> set (wordList s) \<and> claimWord (timeouts s ! k) = Some (word y)" for k y
  proof -
    from that assms(2) have k: "k < length (timeouts s)" by (simp add: enabled_def)
    with that have "timeouts s ! k \<in> set (pendingClaims s)" by (simp add: pendingClaims_def)
    from claimInv_pending [OF inv this] that show ?thesis by simp
  qed
  from claimed_stay [OF inv assms(2,3)] fire show ?thesis
    by (auto simp del: step.simps)
qed

lemma claims_kept_example:
  "calm (foldl step initial trace_claimed) \<and>
   enabled (foldl step initial trace_claimed) (Tick 0 0 0) \<and>
   summary (foldl step initial trace_claimed) =
     (Playing,
      [''CAT'', ''DOG'', ''TREE'', ''BOOK'', ''FISH'', ''SUN'', ''MOON'', ''CAR'', ''BIRD'', ''STAR''],
      [Some Player, None, None, None, None, None, None, None, None, None],
      [(''CAT'', Player)], 1, 0, []) \<and>
   wordList (step (foldl step initial trace_claimed) (Tick 0 0 0)) ! 0 =
     wordList (foldl step initial trace_claimed) ! 0 \<and>
   step ((foldl step initial trace_claimed)\<lparr>selected := [(0, 0), (0, 1), (0, 2)]\<rparr>) MouseUp =
     (foldl step initial trace_claimed)\<lparr>selected := []\<rparr>"
proof -
  let ?s = "foldl step initial trace_claimed"
  have run: "calmRunnable initial trace_claimed" by code_simp
  have ok: "list_all drawsOK trace_claimed" by (simp add: trace_claimed_def rnd_ok_rnd0)
  from calm_run [OF calm_initial run ok] have c: "calm ?s" .
  have sm: "summary ?s =
     (Playing,
      [''CAT'', ''DOG'', ''TREE'', ''BOOK'', ''FISH'', ''SUN'', ''MOON'', ''CAR'', ''BIRD'', ''STAR''],
      [Some Player, None, None, None, None, None, None, None, None, None],
      [(''CAT'', Player)], 1, 0, [])"
    by code_simp
  then have en: "enabled ?s (Tick 0 0 0)" by (simp add: enabled_def summary_def)
  have ns: "\<not> isStart (Tick 0 0 0)" by simp
  have len: "0 < length (wordList ?s)" "foundBy (wordList ?s ! 0) \<noteq> None"
    by code_simp+
  have sel: "list_all (\<lambda>x. positions x = [(0, 0), (0, 1), (0, 2)] \<or>
               rev (positions x) = [(0, 0), (0, 1), (0, 2)] \<longrightarrow> foundBy x \<noteq> None) (wordList ?s)"
    by code_simp
  note t = claims_kept_without_stale_timeout [OF c en ns]
  from t len have a: "wordList (step ?s (Tick 0 0 0)) ! 0 = wordList ?s ! 0" by blast
  from sel have "\<forall>x\<in>set (wordList ?s). positions x = [(0, 0), (0, 1), (0, 2)] \<or>
               rev (positions x) = [(0, 0), (0, 1), (0, 2)] \<longrightarrow> foundBy x \<noteq> None"
    by (simp add: list_all_iff del: foldl_Cons)
  from release_on_claimed [OF this]
  have b: "step (?s\<lparr>selected := [(0, 0), (0, 1), (0, 2)]\<rparr>) MouseUp = ?s\<lparr>selected := []\<rparr>" .
  from c en sm a b show ?thesis by (simp del: step.simps foldl_Cons)
qed

text \<open>
  C4, evaluated on the code: a claimant once set is changed. In the session of
  \<open>trace_flip\<close> a tick of the rival chooses CAT and schedules its claim (700 ms); the
  player presses Restart and Start Game before it fires, and \<^verbatim>\<open>startGame\<close> resets the
  state but cancels no timeout. In the new game the player selects CAT, which is
  unclaimed, and releases, which schedules the player's claim (400 ms). The rival's
  timeout of the old game fires first and sets the claimant of CAT to the rival; the
  player's timeout then fires and sets it to the player: both callbacks write
  \<^verbatim>\<open>foundBy\<close> for every entry with the word, with no test of the entry's
  \<^verbatim>\<open>foundBy\<close> at that moment. CAT is in the log of found words twice and has been
  scored for both sides.
\<close>

theorem stale_claim_overwrites_claimant:
  "reachable (foldl step initial trace_flip) \<and>
   reachable (step (foldl step initial trace_flip) (Fire 0)) \<and>
   summary (foldl step initial (butlast trace_flip)) =
     (AnimatingPlayer,
      [''CAT'', ''DOG'', ''TREE'', ''BOOK'', ''FISH'', ''SUN'', ''MOON'', ''CAR'', ''BIRD'', ''STAR''],
      [None, None, None, None, None, None, None, None, None, None],
      [], 0, 0,
      [AiClaim \<lparr>word = ''CAT'', foundBy = None, positions = [(0, 0), (0, 1), (0, 2)]\<rparr>,
       PlayerClaim ''CAT'' \<lparr>word = ''CAT'', foundBy = None, positions = [(0, 0), (1, 0), (2, 0)]\<rparr>]) \<and>
   summary (foldl step initial trace_flip) =
     (Playing,
      [''CAT'', ''DOG'', ''TREE'', ''BOOK'', ''FISH'', ''SUN'', ''MOON'', ''CAR'', ''BIRD'', ''STAR''],
      [Some AI, None, None, None, None, None, None, None, None, None],
      [(''CAT'', AI)], 0, 1,
      [PlayerClaim ''CAT'' \<lparr>word = ''CAT'', foundBy = None, positions = [(0, 0), (1, 0), (2, 0)]\<rparr>]) \<and>
   summary (step (foldl step initial trace_flip) (Fire 0)) =
     (Playing,
      [''CAT'', ''DOG'', ''TREE'', ''BOOK'', ''FISH'', ''SUN'', ''MOON'', ''CAR'', ''BIRD'', ''STAR''],
      [Some Player, None, None, None, None, None, None, None, None, None],
      [(''CAT'', AI), (''CAT'', Player)], 1, 1, [])"
proof -
  have run: "runnable initial trace_flip" by code_simp
  have ok: "list_all drawsOK trace_flip"
    by (simp add: trace_flip_def rnd_ok_rnd0 rnd_ok_rnd1)
  from reachable_run [OF reachable_initial run ok]
  have r: "reachable (foldl step initial trace_flip)" .
  have z: "summary (foldl step initial (butlast trace_flip)) =
     (AnimatingPlayer,
      [''CAT'', ''DOG'', ''TREE'', ''BOOK'', ''FISH'', ''SUN'', ''MOON'', ''CAR'', ''BIRD'', ''STAR''],
      [None, None, None, None, None, None, None, None, None, None],
      [], 0, 0,
      [AiClaim \<lparr>word = ''CAT'', foundBy = None, positions = [(0, 0), (0, 1), (0, 2)]\<rparr>,
       PlayerClaim ''CAT'' \<lparr>word = ''CAT'', foundBy = None, positions = [(0, 0), (1, 0), (2, 0)]\<rparr>])"
    by code_simp
  have a: "summary (foldl step initial trace_flip) =
     (Playing,
      [''CAT'', ''DOG'', ''TREE'', ''BOOK'', ''FISH'', ''SUN'', ''MOON'', ''CAR'', ''BIRD'', ''STAR''],
      [Some AI, None, None, None, None, None, None, None, None, None],
      [(''CAT'', AI)], 0, 1,
      [PlayerClaim ''CAT'' \<lparr>word = ''CAT'', foundBy = None, positions = [(0, 0), (1, 0), (2, 0)]\<rparr>])"
    by code_simp
  then have en: "enabled (foldl step initial trace_flip) (Fire 0)"
    by (simp add: enabled_def summary_def)
  from r en have r2: "reachable (step (foldl step initial trace_flip) (Fire 0))"
    by (rule reachable_step)
  have b: "summary (step (foldl step initial trace_flip) (Fire 0)) =
     (Playing,
      [''CAT'', ''DOG'', ''TREE'', ''BOOK'', ''FISH'', ''SUN'', ''MOON'', ''CAR'', ''BIRD'', ''STAR''],
      [Some Player, None, None, None, None, None, None, None, None, None],
      [(''CAT'', AI), (''CAT'', Player)], 1, 1, [])"
    by code_simp
  from r r2 z a b show ?thesis by simp
qed

end
